theory Spec2Isabelle
  imports Main "HOL-Library.Word"
begin

section \<open>The ISO 8583 connection client of \<open>client.go\<close>\<close>

text \<open>
  The client multiplexes request/reply exchanges over one connection. A caller's
  \<open>Send\<close> hands a request to the writer goroutine over the unbuffered channel
  \<open>requestsCh\<close>; the writer registers the request's reply channel in \<open>respMap\<close> under
  the request's STAN (field 11) and writes the bytes; the reader goroutine decodes inbound
  frames and hands each one to the reply channel found under its STAN.

  What the code calls outside of \<open>client.go\<close> is taken as a parameter: the message
  library (\<open>iso8583.Message\<close> with the message specification \<open>brandSpec\<close>) and
  the length header (\<open>network.VMLHeader\<close>) through the record \<open>codec\<close>, the results of
  \<open>net.Dial\<close>, \<open>conn.Write\<close>, \<open>header.ReadFrom\<close> and \<open>io.ReadFull\<close> through the
  arguments of the functions that call them.
\<close>

subsection \<open>Data\<close>

type_synonym byte = "8 word"

text \<open>A channel made by \<open>make(chan ...)\<close> is known by its identity.\<close>

type_synonym chan = nat

text \<open>
  Go errors. \<open>Errorf p e\<close> is \<open>fmt.Errorf(p + ": %v", e)\<close>; \<open>Failure\<close> is an error
  of a library or of the network.
\<close>

datatype error = ErrConnectionClosed | Errorf string error | Failure string

fun Error :: "error \<Rightarrow> string" where
  "Error ErrConnectionClosed = ''connection closed''"
| "Error (Errorf p e) = p @ '': '' @ Error e"
| "Error (Failure s) = s"

datatype panic = NilPointerDereference

text \<open>
  The calls into the message library and the header, for a message type \<open>'m\<close>.
  \<open>Field\<close> mutates the message, so it returns the message with its error;
  \<open>WriteHeader n\<close> is \<open>NewVMLHeader\<close>, \<open>SetLength n\<close> and \<open>WriteTo\<close> a buffer;
  \<open>Unpack\<close> is \<open>NewMessage(brandSpec)\<close> followed by \<open>Unpack\<close>.
\<close>

record 'm codec =
  GetString :: "'m \<Rightarrow> nat \<Rightarrow> error + string"
  Field :: "'m \<Rightarrow> nat \<Rightarrow> string \<Rightarrow> 'm \<times> error option"
  Pack :: "'m \<Rightarrow> error + byte list"
  Unpack :: "byte list \<Rightarrow> error + 'm"
  WriteHeader :: "nat \<Rightarrow> error + byte list"

text \<open>The transport: the address dialled, the bytes written so far, whether it is closed.\<close>

record Conn =
  remote :: string
  written :: "byte list"
  closed :: bool

text \<open>
  The struct \<open>request\<close>. Its field \<open>requestID\<close> is \<open>reqID\<close> here, the name
  \<open>requestID\<close> being the function of the source.
\<close>

record request =
  rawMessage :: "byte list"
  reqID :: string
  replyCh :: chan
  errCh :: chan

text \<open>
  The struct \<open>Client\<close>. \<open>conn\<close> is \<open>None\<close> while the interface value is nil;
  \<open>requestsCh\<close> holds the requests whose senders are blocked on the unbuffered channel;
  \<open>stan\<close> is the \<open>int32\<close> counter. The mutex is not a field: what runs under it is one
  step of the model.
\<close>

record Client =
  conn :: "Conn option"
  requestsCh :: "request list"
  respMap :: "string \<rightharpoonup> chan"
  closing :: bool
  stan :: "32 word"

definition NewClient :: Client where
  "NewClient = \<lparr>conn = None, requestsCh = [], respMap = Map.empty, closing = False, stan = 0\<rparr>"

subsection \<open>Connect and Close\<close>

text \<open>
  \<open>Connect\<close>, given what \<open>net.Dial\<close> returned. The two goroutines it starts are
  started by the step \<open>CallConnect\<close> below.
\<close>

definition Connect :: "Client \<Rightarrow> string \<Rightarrow> error + Conn \<Rightarrow> Client \<times> error option" where
  "Connect c addr dial =
     (case dial of
        Inl err \<Rightarrow> (c, Some (Errorf ''connecting to server'' err))
      | Inr cn \<Rightarrow> (c\<lparr>conn := Some cn\<rparr>, None))"

text \<open>
  \<open>Close\<close> sets the flag, then calls \<open>c.conn.Close()\<close>: a method call on a nil interface
  value panics; on a connection that is closed already it returns the transport's error.
\<close>

definition Close :: "Client \<Rightarrow> Client \<times> (panic + error option)" where
  "Close c =
     (let c1 = c\<lparr>closing := True\<rparr> in
      case conn c1 of
        None \<Rightarrow> (c1, Inl NilPointerDereference)
      | Some cn \<Rightarrow>
          if closed cn then (c1, Inr (Some (Failure ''use of closed network connection'')))
          else (c1\<lparr>conn := Some (cn\<lparr>closed := True\<rparr>)\<rparr>, Inr None))"

subsection \<open>The sequence generator\<close>

fun digits :: "nat \<Rightarrow> string" where
  "digits n =
     (if n < 10 then [char_of (48 + n)]
      else digits (n div 10) @ [char_of (48 + n mod 10)])"

declare digits.simps [simp del]

definition zero_pad :: "nat \<Rightarrow> string \<Rightarrow> string" where
  "zero_pad w s = replicate (w - length s) CHR ''0'' @ s"

text \<open>
  \<open>fmt.Sprintf("%06d", i)\<close>: at least six characters, padded with zeros after the sign.
\<close>

definition Sprintf_06d :: "int \<Rightarrow> string" where
  "Sprintf_06d i =
     (if i < 0 then CHR ''-'' # zero_pad 5 (digits (nat (- i)))
      else zero_pad 6 (digits (nat i)))"

definition getSTAN :: "Client \<Rightarrow> Client \<times> string" where
  "getSTAN c =
     (let s = stan c + 1;
          s' = (if 999999 <s s then 0 else s)
      in (c\<lparr>stan := s'\<rparr>, Sprintf_06d (sint s')))"

subsection \<open>Send\<close>

definition setMessageSTAN :: "'m codec \<Rightarrow> Client \<Rightarrow> 'm \<Rightarrow> Client \<times> 'm \<times> error option" where
  "setMessageSTAN cd c message =
     (case GetString cd message 11 of
        Inl err \<Rightarrow> (c, message, Some (Errorf ''getting STAN (field 11) of the message'' err))
      | Inr stan0 \<Rightarrow>
          (let (c1, stan1) = (if stan0 = [] then getSTAN c else (c, stan0));
               (message1, r) = Field cd message 11 stan1
           in case r of
                Some err \<Rightarrow>
                  (c1, message1,
                   Some (Errorf (''setting STAN (field 11): '' @ stan1 @ '' of the message'') err))
              | None \<Rightarrow> (c1, message1, None)))"

definition requestID :: "'m codec \<Rightarrow> 'm \<Rightarrow> error + string" where
  "requestID cd message =
     (case GetString cd message 11 of
        Inl err \<Rightarrow> Inl (Errorf ''getting STAN (field 11) of the message'' err)
      | Inr stan0 \<Rightarrow> Inr stan0)"

text \<open>
  \<open>Send\<close> up to and including \<open>c.requestsCh <- req\<close> (lines 66 to 116). The argument
  \<open>fresh\<close> is the identity of the next channel \<open>make\<close> returns. The result is the client,
  the caller's message as the call left it, and either the error of an early return or
  the request now offered to the writer. The \<open>select\<close> that follows is the step of the
  loop that sends on one of the request's two channels (\<open>send_reply\<close>, \<open>send_err\<close>).
\<close>

definition Send :: "'m codec \<Rightarrow> chan \<Rightarrow> Client \<Rightarrow> 'm \<Rightarrow> Client \<times> 'm \<times> (error + request)" where
  "Send cd fresh c message =
     (if closing c then (c, message, Inl ErrConnectionClosed)
      else
        case setMessageSTAN cd c message of
          (c1, m1, Some err) \<Rightarrow> (c1, m1, Inl (Errorf ''setting message STAN'' err))
        | (c1, m1, None) \<Rightarrow>
            (case Pack cd m1 of
               Inl err \<Rightarrow> (c1, m1, Inl (Errorf ''packing message'' err))
             | Inr packed \<Rightarrow>
                 (case WriteHeader cd (length packed) of
                    Inl err \<Rightarrow> (c1, m1, Inl (Errorf ''writing message header'' err))
                  | Inr hdr \<Rightarrow>
                      (case requestID cd m1 of
                         Inl err \<Rightarrow> (c1, m1, Inl (Errorf ''getting request ID'' err))
                       | Inr rid \<Rightarrow>
                           (let req = \<lparr>rawMessage = hdr @ packed, reqID = rid,
                                       replyCh = fresh, errCh = Suc fresh\<rparr>
                            in (c1\<lparr>requestsCh := requestsCh c1 @ [req]\<rparr>, m1, Inr req))))))"

subsection \<open>The callers, the loops and their channels\<close>

text \<open>
  A call of \<open>Send\<close> that has offered its request waits in the \<open>select\<close> on the
  request's two channels, until it returns \<open>resp, err\<close>.
\<close>

datatype 'm call = Waiting | Returned "'m option" "error option"

datatype goroutine = NotStarted | Running | Blocked | Exited

datatype flow = Continue | Break | Stuck | Panic

text \<open>
  The variables named \<open>err\<close> of \<open>readLoop\<close>: the one declared before the loop
  (line 189) and the one the loop body declares with \<open>:=\<close> (line 195), which every later
  assignment of the body writes.
\<close>

record readLoop_vars =
  err_outer :: "error option"
  err_inner :: "error option"

text \<open>
  The two goroutines one \<open>Connect\<close> starts. The \<open>writeLoop\<close>, and the request it has
  registered in the table and not yet written (it is between lines 172 and 174). The
  \<open>readLoop\<close>, the key whose entry it has yet to delete (it is between lines 221 and
  223), and its local variables.
\<close>

record loops =
  writer :: goroutine
  writer_req :: "request option"
  reader :: goroutine
  reader_key :: "string option"
  reader_vars :: readLoop_vars

text \<open>
  The program: the loops the latest \<open>Connect\<close> started, the client, the calls of
  \<open>Send\<close> that offered a request (with the state of each), the identity of the next
  channel, the loops that earlier calls of \<open>Connect\<close> started, what was printed to the
  standard error, and whether a panic ended the process.
\<close>

record 'm system = loops +
  client :: Client
  calls :: "(request \<times> 'm call) list"
  fresh :: chan
  earlier :: "loops list"
  stderr :: "string list"
  crashed :: bool

definition init :: "'m system" where
  "init = \<lparr>writer = NotStarted, writer_req = None, reader = NotStarted, reader_key = None,
            reader_vars = \<lparr>err_outer = None, err_inner = None\<rparr>,
            client = NewClient, calls = [], fresh = 0, earlier = [], stderr = [], crashed = False\<rparr>"

text \<open>
  A send on an unbuffered channel completes when a receiver takes the value: here the
  call that waits in its \<open>select\<close> on that channel, which then returns. \<open>None\<close>: no
  call receives from the channel, and the sender stays blocked.
\<close>

fun send_reply :: "chan \<Rightarrow> 'm \<Rightarrow> (request \<times> 'm call) list \<Rightarrow> (request \<times> 'm call) list option" where
  "send_reply ch m [] = None"
| "send_reply ch m ((req, Waiting) # rest) =
     (if replyCh req = ch then Some ((req, Returned (Some m) None) # rest)
      else map_option ((#) (req, Waiting)) (send_reply ch m rest))"
| "send_reply ch m ((req, Returned r e) # rest) =
     map_option ((#) (req, Returned r e)) (send_reply ch m rest)"

fun send_err :: "chan \<Rightarrow> error \<Rightarrow> (request \<times> 'm call) list \<Rightarrow> (request \<times> 'm call) list option" where
  "send_err ch err [] = None"
| "send_err ch err ((req, Waiting) # rest) =
     (if errCh req = ch then Some ((req, Returned None (Some err)) # rest)
      else map_option ((#) (req, Waiting)) (send_err ch err rest))"
| "send_err ch err ((req, Returned r e) # rest) =
     map_option ((#) (req, Returned r e)) (send_err ch err rest)"

text \<open>
  The loop of \<open>writeLoop\<close> in its two parts, nothing being locked between them: the
  assignment to the table for the request received (line 172), and the write, given what
  \<open>c.conn.Write\<close> returned, with the send of its error (lines 174 to 179).
\<close>

definition writeLoop_register :: "'m system \<Rightarrow> request \<Rightarrow> 'm system" where
  "writeLoop_register s req =
     s\<lparr>client := (client s)\<lparr>respMap := (respMap (client s))(reqID req \<mapsto> replyCh req)\<rparr>\<rparr>"

definition writeLoop_write :: "'m system \<Rightarrow> request \<Rightarrow> error option \<Rightarrow> 'm system \<times> flow" where
  "writeLoop_write s req wres =
     (case conn (client s) of
        None \<Rightarrow> (s, Panic)
      | Some cn \<Rightarrow>
          (case wres of
             None \<Rightarrow>
               (s\<lparr>client := (client s)\<lparr>conn := Some (cn\<lparr>written := written cn @ rawMessage req\<rparr>)\<rparr>\<rparr>,
                Continue)
           | Some err \<Rightarrow>
               (case send_err (errCh req) err (calls s) of
                  None \<Rightarrow> (s, Stuck)
                | Some calls' \<Rightarrow> (s\<lparr>calls := calls'\<rparr>, Continue))))"

text \<open>
  What one turn of the loop of \<open>readLoop\<close> reads: the result of \<open>header.ReadFrom\<close>
  (the length, when it succeeds) and the result of \<open>io.ReadFull\<close>.
\<close>

type_synonym inbound = "(error + nat) \<times> (error + byte list)"

text \<open>
  The body of the loop of \<open>readLoop\<close> in its two parts, nothing being locked between
  them. First the reads, the decoding, the look-up in the table and the send on the
  channel found (lines 193 to 221); its last component is the key whose entry is to be
  deleted next, if the message was handed over. Then the deletion (line 223).
\<close>

definition readLoop_deliver ::
  "'m codec \<Rightarrow> 'm system \<Rightarrow> readLoop_vars \<Rightarrow> inbound \<Rightarrow>
     'm system \<times> readLoop_vars \<times> flow \<times> string option" where
  "readLoop_deliver cd s v inb =
     (case fst inb of
        Inl e \<Rightarrow> (s, v\<lparr>err_inner := Some e\<rparr>, Break, None)
      | Inr len \<Rightarrow>
          (case snd inb of
             Inl e \<Rightarrow> (s, v\<lparr>err_inner := Some e\<rparr>, Break, None)
           | Inr raw \<Rightarrow>
               (case Unpack cd raw of
                  Inl e \<Rightarrow> (s, v\<lparr>err_inner := Some e\<rparr>, Break, None)
                | Inr message \<Rightarrow>
                    (case requestID cd message of
                       Inl e \<Rightarrow> (s, v\<lparr>err_inner := Some e\<rparr>, Break, None)
                     | Inr rid \<Rightarrow>
                         (case respMap (client s) rid of
                            Some ch \<Rightarrow>
                              (case send_reply ch message (calls s) of
                                 None \<Rightarrow> (s, v\<lparr>err_inner := None\<rparr>, Stuck, None)
                               | Some calls' \<Rightarrow>
                                   (s\<lparr>calls := calls'\<rparr>, v\<lparr>err_inner := None\<rparr>, Continue, Some rid))
                          | None \<Rightarrow> (s, v\<lparr>err_inner := None\<rparr>, Continue, None))))))"

definition readLoop_delete :: "'m system \<Rightarrow> string \<Rightarrow> 'm system" where
  "readLoop_delete s rid =
     s\<lparr>client := (client s)\<lparr>respMap := (respMap (client s))(rid := None)\<rparr>\<rparr>"

text \<open>The whole body of the loop (lines 193 to 228), when nothing runs in between.\<close>

definition readLoop_body ::
  "'m codec \<Rightarrow> 'm system \<Rightarrow> readLoop_vars \<Rightarrow> inbound \<Rightarrow> 'm system \<times> readLoop_vars \<times> flow" where
  "readLoop_body cd s v inb =
     (case readLoop_deliver cd s v inb of
        (s1, v1, fl, Some rid) \<Rightarrow> (readLoop_delete s1 rid, v1, fl)
      | (s1, v1, fl, None) \<Rightarrow> (s1, v1, fl))"

text \<open>The code of \<open>readLoop\<close> after the loop (lines 231 to 242), \<open>err\<close> being the outer variable.\<close>

definition readLoop_exit :: "'m system \<Rightarrow> error option \<Rightarrow> 'm system" where
  "readLoop_exit s err =
     (case err of
        Some e \<Rightarrow>
          if \<not> closing (client s)
          then s\<lparr>stderr := stderr s @ [''reading standard input: '' @ Error e]\<rparr>
          else s
      | None \<Rightarrow> s)"

text \<open>The loop of \<open>readLoop\<close> over what its successive turns read, while it goes on.\<close>

fun readLoop_for ::
  "'m codec \<Rightarrow> 'm system \<Rightarrow> readLoop_vars \<Rightarrow> inbound list \<Rightarrow> 'm system \<times> readLoop_vars \<times> flow" where
  "readLoop_for cd s v [] = (s, v, Continue)"
| "readLoop_for cd s v (inb # rest) =
     (case readLoop_body cd s v inb of
        (s1, v1, Continue) \<Rightarrow> readLoop_for cd s1 v1 rest
      | r \<Rightarrow> r)"

text \<open>
  \<open>readLoop\<close> as a whole, running on its own: \<open>None\<close> while the loop has not left (it
  waits for bytes, or is blocked in its send), otherwise the program after the function
  returned.
\<close>

definition readLoop :: "'m codec \<Rightarrow> 'm system \<Rightarrow> inbound list \<Rightarrow> 'm system option" where
  "readLoop cd s script =
     (case readLoop_for cd s \<lparr>err_outer = None, err_inner = None\<rparr> script of
        (s1, v1, Break) \<Rightarrow> Some (readLoop_exit s1 (err_outer v1))
      | _ \<Rightarrow> None)"

subsection \<open>Steps of the program\<close>

text \<open>
  What callers, the scheduler and the network do, one step each. A call of \<open>Connect\<close>
  with the result of \<open>net.Dial\<close>; a call of \<open>Send\<close> up to its offer on \<open>requestsCh\<close>;
  a call of \<open>Close\<close>. The writer receives the request of the \<open>i\<close>-th blocked sender and
  registers it (lines 170 to 172); the writer writes it, with the result of the write, and
  sends the error if there is one (lines 174 to 179). The reader reads, decodes, looks the
  key up and sends on the channel found (lines 193 to 221); the reader deletes the entry
  (line 223). No step has more than one access to the table. Between any two of these
  steps any other goroutine may take its own: the table is not locked (the TODOs of lines
  171, 177 and 222). \<open>Earlier j a\<close> is the step
  \<open>a\<close> of a loop that the \<open>j\<close>-th earlier \<open>Connect\<close> started: \<open>Connect\<close> stops no
  loop, it starts two more.
\<close>

datatype 'm action =
    CallConnect string "error + Conn"
  | CallSend 'm
  | CallClose
  | WriterReceive nat
  | WriterWrite "error option"
  | ReaderTurn inbound
  | ReaderDelete
  | Earlier nat "'m action"

definition save :: "'m system \<Rightarrow> loops" where
  "save s = \<lparr>writer = writer s, writer_req = writer_req s, reader = reader s,
             reader_key = reader_key s, reader_vars = reader_vars s\<rparr>"

definition load :: "loops \<Rightarrow> 'm system \<Rightarrow> 'm system" where
  "load l s = s\<lparr>writer := writer l, writer_req := writer_req l, reader := reader l,
               reader_key := reader_key l, reader_vars := reader_vars l\<rparr>"

text \<open>
  \<open>Connect\<close> (lines 35 to 46): when the dial succeeds the connection is replaced and a
  new \<open>writeLoop\<close> and a new \<open>readLoop\<close> start; the loops that ran before go on.
\<close>

definition step_Connect :: "'m system \<Rightarrow> string \<Rightarrow> error + Conn \<Rightarrow> 'm system" where
  "step_Connect s addr dial =
     (case Connect (client s) addr dial of
        (c1, None) \<Rightarrow>
          s\<lparr>client := c1,
            earlier := (if writer s = NotStarted then earlier s else earlier s @ [save s]),
            writer := Running, writer_req := None, reader := Running, reader_key := None,
            reader_vars := \<lparr>err_outer = None, err_inner = None\<rparr>\<rparr>
      | (c1, Some e) \<Rightarrow> s\<lparr>client := c1\<rparr>)"

definition step_Send :: "'m codec \<Rightarrow> 'm system \<Rightarrow> 'm \<Rightarrow> 'm system" where
  "step_Send cd s message =
     (case Send cd (fresh s) (client s) message of
        (c1, m1, Inl e) \<Rightarrow> s\<lparr>client := c1\<rparr>
      | (c1, m1, Inr req) \<Rightarrow>
          s\<lparr>client := c1, calls := calls s @ [(req, Waiting)], fresh := Suc (Suc (fresh s))\<rparr>)"

definition step_Close :: "'m system \<Rightarrow> 'm system" where
  "step_Close s =
     (case Close (client s) of
        (c1, Inl p) \<Rightarrow> s\<lparr>client := c1, crashed := True\<rparr>
      | (c1, Inr e) \<Rightarrow> s\<lparr>client := c1\<rparr>)"

definition step_WriterReceive :: "'m system \<Rightarrow> nat \<Rightarrow> 'm system" where
  "step_WriterReceive s i =
     (if writer s = Running \<and> writer_req s = None \<and> i < length (requestsCh (client s)) then
        (let req = requestsCh (client s) ! i;
             s0 = s\<lparr>client := (client s)\<lparr>requestsCh :=
                       take i (requestsCh (client s)) @ drop (Suc i) (requestsCh (client s))\<rparr>\<rparr>
         in (writeLoop_register s0 req)\<lparr>writer_req := Some req\<rparr>)
      else s)"

definition step_WriterWrite :: "'m system \<Rightarrow> error option \<Rightarrow> 'm system" where
  "step_WriterWrite s wres =
     (if writer s = Running then
        (case writer_req s of
           None \<Rightarrow> s
         | Some req \<Rightarrow>
             (case writeLoop_write s req wres of
                (s1, Continue) \<Rightarrow> s1\<lparr>writer_req := None\<rparr>
              | (s1, Stuck) \<Rightarrow> s1\<lparr>writer := Blocked\<rparr>
              | (s1, Break) \<Rightarrow> s1\<lparr>writer := Exited\<rparr>
              | (s1, Panic) \<Rightarrow> s1\<lparr>crashed := True\<rparr>))
      else s)"

definition step_Reader :: "'m codec \<Rightarrow> 'm system \<Rightarrow> inbound \<Rightarrow> 'm system" where
  "step_Reader cd s inb =
     (if reader s = Running \<and> reader_key s = None then
        (case readLoop_deliver cd s (reader_vars s) inb of
           (s1, v1, Continue, k) \<Rightarrow> s1\<lparr>reader_vars := v1, reader_key := k\<rparr>
         | (s1, v1, Stuck, k) \<Rightarrow> s1\<lparr>reader_vars := v1, reader := Blocked\<rparr>
         | (s1, v1, Break, k) \<Rightarrow> (readLoop_exit s1 (err_outer v1))\<lparr>reader_vars := v1, reader := Exited\<rparr>
         | (s1, v1, Panic, k) \<Rightarrow> s1\<lparr>reader_vars := v1, crashed := True\<rparr>)
      else s)"

definition step_ReaderDelete :: "'m system \<Rightarrow> 'm system" where
  "step_ReaderDelete s =
     (if reader s = Running then
        (case reader_key s of
           None \<Rightarrow> s
         | Some rid \<Rightarrow> (readLoop_delete s rid)\<lparr>reader_key := None\<rparr>)
      else s)"

text \<open>A step of the loops the latest \<open>Connect\<close> started.\<close>

fun turn :: "'m codec \<Rightarrow> 'm system \<Rightarrow> 'm action \<Rightarrow> 'm system" where
  "turn cd s (WriterReceive i) = step_WriterReceive s i"
| "turn cd s (WriterWrite wres) = step_WriterWrite s wres"
| "turn cd s (ReaderTurn inb) = step_Reader cd s inb"
| "turn cd s ReaderDelete = step_ReaderDelete s"
| "turn cd s a = s"

text \<open>
  A step of the loops the \<open>j\<close>-th earlier \<open>Connect\<close> started: the same step, on those
  loops' own state.
\<close>

definition on_earlier :: "nat \<Rightarrow> ('m system \<Rightarrow> 'm system) \<Rightarrow> 'm system \<Rightarrow> 'm system" where
  "on_earlier j f s =
     (if j < length (earlier s) then
        (let s1 = f (load (earlier s ! j) s)
         in load (save s) (s1\<lparr>earlier := (earlier s)[j := save s1]\<rparr>))
      else s)"

fun step :: "'m codec \<Rightarrow> 'm system \<Rightarrow> 'm action \<Rightarrow> 'm system" where
  "step cd s a =
     (if crashed s then s
      else case a of
             CallConnect addr dial \<Rightarrow> step_Connect s addr dial
           | CallSend message \<Rightarrow> step_Send cd s message
           | CallClose \<Rightarrow> step_Close s
           | Earlier j b \<Rightarrow> on_earlier j (\<lambda>s1. turn cd s1 b) s
           | _ \<Rightarrow> turn cd s a)"

declare step.simps [simp del]

definition run :: "'m codec \<Rightarrow> 'm system \<Rightarrow> 'm action list \<Rightarrow> 'm system" where
  "run cd s acts = foldl (step cd) s acts"

text \<open>Nobody calls \<open>Connect\<close> in these steps.\<close>

fun is_Connect :: "'m action \<Rightarrow> bool" where
  "is_Connect (CallConnect addr dial) = True"
| "is_Connect a = False"

fun no_Connect :: "'m action list \<Rightarrow> bool" where
  "no_Connect [] = True"
| "no_Connect (a # rest) = (\<not> is_Connect a \<and> no_Connect rest)"

subsection \<open>Notions the properties are stated with\<close>

text \<open>The counter is in its range, as \<open>NewClient\<close> leaves it.\<close>

definition stan_ok :: "Client \<Rightarrow> bool" where
  "stan_ok c \<longleftrightarrow> 0 \<le> sint (stan c) \<and> sint (stan c) \<le> 999999"

text \<open>The text the \<open>(i + 1)\<close>-th call of \<open>getSTAN\<close> returns, counting from client \<open>c\<close>.\<close>

definition emitted :: "Client \<Rightarrow> nat \<Rightarrow> string" where
  "emitted c i = snd (getSTAN (((\<lambda>c. fst (getSTAN c)) ^^ i) c))"

definition is_digit :: "char \<Rightarrow> bool" where
  "is_digit ch \<longleftrightarrow> 48 \<le> (of_char ch :: nat) \<and> (of_char ch :: nat) \<le> 57"

text \<open>The number a string of decimal digits denotes.\<close>

definition dec_val :: "string \<Rightarrow> nat" where
  "dec_val s = foldl (\<lambda>a ch. 10 * a + (of_char ch - 48)) 0 s"

subsection \<open>A message library to run the program on\<close>

text \<open>
  Modelled from the spec: the message codec and the framing codec are outside the
  repository's source (section 6: \<open>Pack\<close>, \<open>Unpack\<close>, \<open>GetField\<close>, \<open>SetField\<close>,
  \<open>EncodeHeader\<close>). This instance is the least that has their contracts: a message is
  the list of its fields, a field that is not set reads as the empty text, the packed
  form carries field 11 alone, and the header is the length in two bytes. It serves to
  evaluate the program at concrete inputs.
\<close>

type_synonym message = "(nat \<times> string) list"

definition listCodec :: "message codec" where
  "listCodec =
     \<lparr>GetString = (\<lambda>m i. Inr (case map_of m i of None \<Rightarrow> [] | Some t \<Rightarrow> t)),
      Field = (\<lambda>m i t. ((i, t) # filter (\<lambda>p. fst p \<noteq> i) m, None)),
      Pack = (\<lambda>m. Inr (map of_char (case map_of m 11 of None \<Rightarrow> [] | Some t \<Rightarrow> t))),
      Unpack = (\<lambda>raw. Inr [(11, map (\<lambda>b. char_of (unat b)) raw)]),
      WriteHeader = (\<lambda>n. Inr [word_of_nat (n div 256), word_of_nat n])\<rparr>"

text \<open>
  What \<open>Field\<close> stores, \<open>GetString\<close> reads back: the contract of the library's
  field accessors that the claims on the correlation field rest on.
\<close>

definition field_law :: "'m codec \<Rightarrow> bool" where
  "field_law cd \<longleftrightarrow> (\<forall>m i t m1. Field cd m i t = (m1, None) \<longrightarrow> GetString cd m1 i = Inr t)"

text \<open>
  The message and the key the reader decodes from what it read, when it decodes one
  (lines 194 to 217).
\<close>

definition decoded :: "'m codec \<Rightarrow> inbound \<Rightarrow> ('m \<times> string) option" where
  "decoded cd inb =
     (case fst inb of
        Inl e \<Rightarrow> None
      | Inr len \<Rightarrow>
          (case snd inb of
             Inl e \<Rightarrow> None
           | Inr raw \<Rightarrow>
               (case Unpack cd raw of
                  Inl e \<Rightarrow> None
                | Inr message \<Rightarrow>
                    (case requestID cd message of
                       Inl e \<Rightarrow> None
                     | Inr rid \<Rightarrow> Some (message, rid)))))"


text \<open>The reader's steps for the frames that arrive, in the order of their arrival.\<close>

fun reader_turns :: "inbound list \<Rightarrow> 'm action list" where
  "reader_turns [] = []"
| "reader_turns (inb # rest) = ReaderTurn inb # ReaderDelete # reader_turns rest"

subsection \<open>Concrete runs\<close>

definition dialled :: Conn where
  "dialled = \<lparr>remote = ''127.0.0.1:8583'', written = [], closed = False\<rparr>"

definition connect_ok :: "message action" where
  "connect_ok = CallConnect ''127.0.0.1:8583'' (Inr dialled)"

text \<open>A well-formed inbound frame whose message carries the STAN \<open>t\<close>.\<close>

definition frame :: "string \<Rightarrow> inbound" where
  "frame t = (Inr (length t), Inr (map of_char t))"

text \<open>What the reader gets once the connection is closed.\<close>

definition read_fails :: inbound where
  "read_fails = (Inl (Failure ''use of closed network connection''), Inl (Failure ''EOF''))"

text \<open>The request of the first \<open>Send\<close> of a message without STAN.\<close>

definition request1 :: request where
  "request1 = \<lparr>rawMessage = [0, 6, 48, 48, 48, 48, 48, 49], reqID = ''000001'',
                replyCh = 0, errCh = 1\<rparr>"

text \<open>One request written and waiting for its reply.\<close>

definition pending :: "message system" where
  "pending =
     run listCodec init [connect_ok, CallSend [(2, ''4111'')], WriterReceive 0, WriterWrite None]"

text \<open>Then the caller closes the client, and the reader's next read fails.\<close>

definition abandoned :: "message system" where
  "abandoned = run listCodec pending [CallClose, ReaderTurn read_fails]"

text \<open>Steps of every kind but a \<open>Connect\<close>, taken after that.\<close>

definition afterwards :: "message action list" where
  "afterwards =
     [CallSend [(2, ''4111'')], ReaderTurn (frame ''000001''), ReaderDelete, WriterReceive 0,
      WriterWrite None, CallClose, Earlier 0 (ReaderTurn (frame ''000001''))]"

text \<open>One request whose write failed.\<close>

definition write_failed :: "message system" where
  "write_failed =
     run listCodec init
       [connect_ok, CallSend [(2, ''4111'')], WriterReceive 0, WriterWrite (Some (Failure ''broken pipe''))]"

definition after_Close :: "message system" where
  "after_Close = run listCodec init [connect_ok, CallClose]"

text \<open>Two requests that carry the same STAN, the second one not yet received by the writer.\<close>

definition request_a :: request where
  "request_a = \<lparr>rawMessage = [0, 6, 48, 48, 48, 49, 50, 51], reqID = ''000123'',
                 replyCh = 0, errCh = 1\<rparr>"

definition request_b :: request where
  "request_b = \<lparr>rawMessage = [0, 6, 48, 48, 48, 49, 50, 51], reqID = ''000123'',
                 replyCh = 2, errCh = 3\<rparr>"

definition collision :: "message action list" where
  "collision =
     [connect_ok, CallSend [(11, ''000123'')], WriterReceive 0, WriterWrite None,
      CallSend [(11, ''000123'')]]"

definition before_collision :: "message system" where
  "before_collision = run listCodec init collision"

text \<open>
  The same STAN sent again after its reply was handed over and before the reader has
  deleted the entry; then the reply to the second request arrives.
\<close>

definition key_reused :: "message action list" where
  "key_reused =
     [connect_ok, CallSend [(11, ''000123'')], WriterReceive 0, WriterWrite None,
      ReaderTurn (frame ''000123''),
      CallSend [(11, ''000123'')], WriterReceive 0,
      ReaderDelete, WriterWrite None,
      ReaderTurn (frame ''000123''), ReaderDelete]"

text \<open>Two requests with their own STANs, written and waiting, and their replies in the opposite order.\<close>

definition request_c :: request where
  "request_c = \<lparr>rawMessage = [0, 6, 48, 48, 48, 52, 53, 54], reqID = ''000456'',
                 replyCh = 2, errCh = 3\<rparr>"

definition two_pending :: "message action list" where
  "two_pending =
     [connect_ok, CallSend [(11, ''000123'')], CallSend [(11, ''000456'')],
      WriterReceive 0, WriterWrite None, WriterReceive 0, WriterWrite None]"

definition out_of_order :: "message action list" where
  "out_of_order = two_pending @ reader_turns [frame ''000456'', frame ''000123'']"

subsection \<open>The invariants of the correlation table\<close>

definition requests :: "'m system \<Rightarrow> request set" where
  "requests s = fst ` set (calls s)"

text \<open>
  The calls have reply channels of their own, older than the next fresh channel; a request
  offered to the writer belongs to a call; the channel the table holds under a key is not
  fresh and belongs to requests with that key only; a reply a call returned carries the
  key of the call's request.
\<close>

definition consistent :: "'m codec \<Rightarrow> 'm system \<Rightarrow> bool" where
  "consistent cd s \<longleftrightarrow>
     (\<forall>r \<in> requests s. replyCh r < fresh s)
   \<and> distinct (map (\<lambda>c. replyCh (fst c)) (calls s))
   \<and> set (requestsCh (client s)) \<subseteq> requests s
   \<and> (\<forall>k ch. respMap (client s) k = Some ch \<longrightarrow>
         ch < fresh s \<and> (\<forall>r \<in> requests s. replyCh r = ch \<longrightarrow> reqID r = k))
   \<and> (\<forall>(r, st) \<in> set (calls s). \<forall>reply e. st = Returned (Some reply) e \<longrightarrow>
         requestID cd reply = Inr (reqID r))"

text \<open>
  The requests offered to the writer have reply channels of their own, none of them in
  the table yet; a channel in the table is the reply channel of some call.
\<close>

definition unshared :: "'m system \<Rightarrow> bool" where
  "unshared s \<longleftrightarrow>
     distinct (map replyCh (requestsCh (client s)))
   \<and> (\<forall>req \<in> set (requestsCh (client s)). \<forall>k. respMap (client s) k \<noteq> Some (replyCh req))
   \<and> (\<forall>k ch. respMap (client s) k = Some ch \<longrightarrow> (\<exists>r \<in> requests s. replyCh r = ch))"

text \<open>No reader's outer \<open>err\<close> was assigned.\<close>

definition quiet :: "'m system \<Rightarrow> bool" where
  "quiet s \<longleftrightarrow>
     err_outer (reader_vars s) = None \<and> (\<forall>l \<in> set (earlier s). err_outer (reader_vars l) = None)"

section \<open>Evaluation\<close>

lemma Sprintf_06d_0: "Sprintf_06d 0 = ''000000''"
  by code_simp

lemma Sprintf_06d_1: "Sprintf_06d 1 = ''000001''"
  by code_simp

lemma Sprintf_06d_2: "Sprintf_06d 2 = ''000002''"
  by code_simp

lemma char_of_digit:
  "char_of (48::nat) = CHR ''0''" "char_of (49::nat) = CHR ''1''" "char_of (50::nat) = CHR ''2''"
  "char_of (51::nat) = CHR ''3''" "char_of (52::nat) = CHR ''4''" "char_of (53::nat) = CHR ''5''"
  "char_of (54::nat) = CHR ''6''" "char_of (55::nat) = CHR ''7''" "char_of (56::nat) = CHR ''8''"
  "char_of (57::nat) = CHR ''9''"
  by code_simp+

lemmas eval_defs =
  run_def step.simps step_Connect_def step_Send_def step_Close_def
  step_WriterReceive_def step_WriterWrite_def step_Reader_def step_ReaderDelete_def
  on_earlier_def load_def save_def
  Connect_def Close_def Send_def setMessageSTAN_def getSTAN_def requestID_def
  Sprintf_06d_0 Sprintf_06d_1 Sprintf_06d_2 char_of_digit word_sless_alt
  writeLoop_register_def writeLoop_write_def readLoop_deliver_def readLoop_delete_def
  readLoop_body_def readLoop_exit_def
  init_def NewClient_def listCodec_def dialled_def connect_ok_def frame_def read_fails_def Let_def

lemma pending_eq:
  "pending =
     \<lparr>writer = Running, writer_req = None, reader = Running, reader_key = None,
      reader_vars = \<lparr>err_outer = None, err_inner = None\<rparr>,
      client = \<lparr>conn = Some \<lparr>remote = ''127.0.0.1:8583'',
                               written = [0, 6, 48, 48, 48, 48, 48, 49], closed = False\<rparr>,
                 requestsCh = [], respMap = [''000001'' \<mapsto> 0], closing = False, stan = 1\<rparr>,
      calls = [(request1, Waiting)], fresh = 2, earlier = [], stderr = [], crashed = False\<rparr>"
  by (simp add: pending_def eval_defs request1_def)

lemma abandoned_eq:
  "abandoned =
     \<lparr>writer = Running, writer_req = None, reader = Exited, reader_key = None,
      reader_vars = \<lparr>err_outer = None,
                      err_inner = Some (Failure ''use of closed network connection'')\<rparr>,
      client = \<lparr>conn = Some \<lparr>remote = ''127.0.0.1:8583'',
                               written = [0, 6, 48, 48, 48, 48, 48, 49], closed = True\<rparr>,
                 requestsCh = [], respMap = [''000001'' \<mapsto> 0], closing = True, stan = 1\<rparr>,
      calls = [(request1, Waiting)], fresh = 2, earlier = [], stderr = [], crashed = False\<rparr>"
  by (simp add: abandoned_def pending_eq) (simp add: eval_defs)

lemma write_failed_eq:
  "write_failed =
     \<lparr>writer = Running, writer_req = None, reader = Running, reader_key = None,
      reader_vars = \<lparr>err_outer = None, err_inner = None\<rparr>,
      client = \<lparr>conn = Some dialled, requestsCh = [], respMap = [''000001'' \<mapsto> 0],
                 closing = False, stan = 1\<rparr>,
      calls = [(request1, Returned None (Some (Failure ''broken pipe'')))], fresh = 2,
      earlier = [], stderr = [], crashed = False\<rparr>"
  by (simp add: write_failed_def eval_defs request1_def)

lemma after_Close_eq:
  "after_Close =
     \<lparr>writer = Running, writer_req = None, reader = Running, reader_key = None,
      reader_vars = \<lparr>err_outer = None, err_inner = None\<rparr>,
      client = \<lparr>conn = Some (dialled\<lparr>closed := True\<rparr>), requestsCh = [], respMap = Map.empty,
                 closing = True, stan = 0\<rparr>,
      calls = [], fresh = 0, earlier = [], stderr = [], crashed = False\<rparr>"
  by (simp add: after_Close_def eval_defs)

lemma before_collision_eq:
  "before_collision =
     \<lparr>writer = Running, writer_req = None, reader = Running, reader_key = None,
      reader_vars = \<lparr>err_outer = None, err_inner = None\<rparr>,
      client = \<lparr>conn = Some \<lparr>remote = ''127.0.0.1:8583'',
                               written = [0, 6, 48, 48, 48, 49, 50, 51], closed = False\<rparr>,
                 requestsCh = [request_b], respMap = [''000123'' \<mapsto> 0], closing = False, stan = 0\<rparr>,
      calls = [(request_a, Waiting), (request_b, Waiting)], fresh = 4,
      earlier = [], stderr = [], crashed = False\<rparr>"
  by (simp add: before_collision_def collision_def eval_defs request_a_def request_b_def)

lemma two_pending_eq:
  "run listCodec init two_pending =
     \<lparr>writer = Running, writer_req = None, reader = Running, reader_key = None,
      reader_vars = \<lparr>err_outer = None, err_inner = None\<rparr>,
      client = \<lparr>conn = Some \<lparr>remote = ''127.0.0.1:8583'',
                               written = [0, 6, 48, 48, 48, 49, 50, 51, 0, 6, 48, 48, 48, 52, 53, 54],
                               closed = False\<rparr>,
                 requestsCh = [], respMap = [''000123'' \<mapsto> 0, ''000456'' \<mapsto> 2],
                 closing = False, stan = 0\<rparr>,
      calls = [(request_a, Waiting), (request_c, Waiting)], fresh = 4,
      earlier = [], stderr = [], crashed = False\<rparr>"
  by (simp add: two_pending_def eval_defs request_a_def request_c_def numeral_2_eq_2)

lemma run_append: "run cd s (xs @ ys) = run cd (run cd s xs) ys"
  by (simp add: run_def)

lemma out_of_order_calls:
  "calls (run listCodec init out_of_order) =
     [(request_a, Returned (Some [(11, ''000123'')]) None),
      (request_c, Returned (Some [(11, ''000456'')]) None)]"
  by (simp add: out_of_order_def run_append two_pending_eq)
     (simp add: eval_defs request_a_def request_c_def)

section \<open>The sequence generator\<close>

lemma sint_succ:
  fixes w :: "32 word"
  assumes "0 \<le> sint w" "sint w \<le> 999999"
  shows "sint (w + 1) = sint w + 1"
proof -
  have "sint (w + 1) = signed_take_bit 31 (sint w + 1)"
    by (simp add: sint_word_ariths)
  also have "\<dots> = sint w + 1"
    using assms by (intro signed_take_bit_int_eq_self) auto
  finally show ?thesis .
qed

lemma dec_val_append: "dec_val (s @ [ch]) = 10 * dec_val s + (of_char ch - 48)"
  by (simp add: dec_val_def)

lemma dec_val_digits: "dec_val (digits n) = n"
proof (induction n rule: digits.induct)
  case (1 n)
  show ?case
  proof (cases "n < 10")
    case True
    then show ?thesis by (subst digits.simps) (simp add: dec_val_def)
  next
    case False
    then have "dec_val (digits n) = 10 * dec_val (digits (n div 10)) + n mod 10"
      by (subst digits.simps) (simp add: dec_val_append)
    with 1 False show ?thesis by simp
  qed
qed

lemma dec_val_zeros: "dec_val (replicate k CHR ''0'' @ s) = dec_val s"
proof -
  have "foldl (\<lambda>a ch. 10 * a + (of_char ch - 48)) 0 (replicate k CHR ''0'') = (0::nat)"
    by (induction k) simp_all
  then show ?thesis by (simp add: dec_val_def)
qed

lemma length_digits: "n < 10 ^ k \<Longrightarrow> 0 < k \<Longrightarrow> length (digits n) \<le> k"
proof (induction n arbitrary: k rule: digits.induct)
  case (1 n)
  show ?case
  proof (cases "n < 10")
    case True
    then show ?thesis using 1(3) by (subst digits.simps) simp
  next
    case False
    obtain k' where k: "k = Suc k'" using 1(3) by (cases k) auto
    from False 1(2) k have "0 < k'" by (cases k') auto
    moreover from 1(2) k have "n div 10 < 10 ^ k'"
      by (simp add: less_mult_imp_div_less mult.commute)
    ultimately have "length (digits (n div 10)) \<le> k'" using 1(1) False by simp
    then show ?thesis using False k by (subst digits.simps) simp
  qed
qed

lemma digits_are_digits: "ch \<in> set (digits n) \<Longrightarrow> is_digit ch"
proof (induction n rule: digits.induct)
  case (1 n)
  show ?case
  proof (cases "n < 10")
    case True
    with 1(2) show ?thesis by (subst (asm) digits.simps) (simp add: is_digit_def)
  next
    case False
    have "n mod 10 < 10" by simp
    then have "is_digit (char_of (48 + n mod 10))"
      unfolding is_digit_def by (simp add: of_char_of)
    with 1 False show ?thesis by (subst (asm) digits.simps) auto
  qed
qed

lemma Sprintf_06d_six:
  assumes "0 \<le> i" "i \<le> 999999"
  shows "length (Sprintf_06d i) = 6"
    and "\<forall>ch \<in> set (Sprintf_06d i). is_digit ch"
    and "int (dec_val (Sprintf_06d i)) = i"
proof -
  have "nat i < 10 ^ 6" using assms by simp
  then have len: "length (digits (nat i)) \<le> 6" by (rule length_digits) simp
  then show "length (Sprintf_06d i) = 6"
    using assms by (simp add: Sprintf_06d_def zero_pad_def)
  have "is_digit CHR ''0''" by (simp add: is_digit_def)
  then show "\<forall>ch \<in> set (Sprintf_06d i). is_digit ch"
    using assms by (auto simp: Sprintf_06d_def zero_pad_def dest: digits_are_digits)
  show "int (dec_val (Sprintf_06d i)) = i"
    using assms by (simp add: Sprintf_06d_def zero_pad_def dec_val_zeros dec_val_digits)
qed

lemma getSTAN_stan:
  assumes "stan_ok c"
  shows "sint (stan (fst (getSTAN c))) = (sint (stan c) + 1) mod 1000000"
proof -
  from assms have b: "0 \<le> sint (stan c)" "sint (stan c) \<le> 999999"
    by (simp_all add: stan_ok_def)
  have s: "sint (stan c + 1) = sint (stan c) + 1" by (rule sint_succ [OF b])
  show ?thesis
  proof (cases "sint (stan c) = 999999")
    case True
    with s show ?thesis by (simp add: getSTAN_def Let_def word_sless_alt)
  next
    case False
    with b s show ?thesis by (simp add: getSTAN_def Let_def word_sless_alt)
  qed
qed

lemma getSTAN_stan_ok: "stan_ok c \<Longrightarrow> stan_ok (fst (getSTAN c))"
  using getSTAN_stan [of c] by (simp add: stan_ok_def)

lemma getSTAN_text: "snd (getSTAN c) = Sprintf_06d (sint (stan (fst (getSTAN c))))"
  by (simp add: getSTAN_def Let_def)

lemma getSTAN_iterate:
  assumes "stan_ok c"
  shows "stan_ok (((\<lambda>c. fst (getSTAN c)) ^^ i) c) \<and>
         sint (stan (((\<lambda>c. fst (getSTAN c)) ^^ i) c)) = (sint (stan c) + int i) mod 1000000"
proof (induction i)
  case 0
  from assms show ?case by (simp add: stan_ok_def)
next
  case (Suc i)
  let ?d = "((\<lambda>c. fst (getSTAN c)) ^^ i) c"
  from Suc have ok: "stan_ok ?d" and v: "sint (stan ?d) = (sint (stan c) + int i) mod 1000000"
    by simp_all
  have "sint (stan (fst (getSTAN ?d))) = ((sint (stan c) + int i) mod 1000000 + 1) mod 1000000"
    using getSTAN_stan [OF ok] v by simp
  also have "\<dots> = (sint (stan c) + int (Suc i)) mod 1000000"
    by (simp add: mod_simps ac_simps)
  finally show ?case using getSTAN_stan_ok [OF ok] by simp
qed

lemma emitted_value:
  assumes "stan_ok c"
  shows "emitted c i = Sprintf_06d ((sint (stan c) + 1 + int i) mod 1000000)"
proof -
  let ?d = "((\<lambda>c. fst (getSTAN c)) ^^ i) c"
  from getSTAN_iterate [OF assms, of i]
  have ok: "stan_ok ?d" and v: "sint (stan ?d) = (sint (stan c) + int i) mod 1000000"
    by simp_all
  have "sint (stan (fst (getSTAN ?d))) = ((sint (stan c) + int i) mod 1000000 + 1) mod 1000000"
    using getSTAN_stan [OF ok] v by simp
  also have "\<dots> = (sint (stan c) + 1 + int i) mod 1000000"
    by (simp add: mod_simps ac_simps)
  finally show ?thesis by (simp add: emitted_def getSTAN_text)
qed

lemma emitted_distinct:
  assumes "stan_ok c" "i < j" "j < i + 1000000"
  shows "emitted c i \<noteq> emitted c j"
proof
  assume eq: "emitted c i = emitted c j"
  let ?a = "(sint (stan c) + 1 + int i) mod 1000000"
  let ?b = "(sint (stan c) + 1 + int j) mod 1000000"
  have ra: "0 \<le> ?a" "?a \<le> 999999" and rb: "0 \<le> ?b" "?b \<le> 999999" by simp_all
  have "?a = int (dec_val (Sprintf_06d ?a))" using Sprintf_06d_six(3) [OF ra] by simp
  also have "\<dots> = int (dec_val (Sprintf_06d ?b))"
    using eq by (simp add: emitted_value [OF assms(1)])
  also have "\<dots> = ?b" using Sprintf_06d_six(3) [OF rb] by simp
  finally have "?b = ?a" by simp
  then have "(1000000::int) dvd (sint (stan c) + 1 + int j) - (sint (stan c) + 1 + int i)"
    by (simp only: mod_eq_dvd_iff)
  then have "(1000000::int) dvd int j - int i" by simp
  moreover have "0 < int j - int i" using assms(2) by simp
  ultimately have "1000000 \<le> int j - int i" by (rule zdvd_imp_le)
  with assms(3) show False by simp
qed

text \<open>
  C6. While the counter is in 0..999999 (where \<open>NewClient\<close> puts it, and where an
  allocation keeps it), an allocation moves it on by one and from 999999 to 0, and returns
  the new value as six decimal digits, padded with zeros. The (i + 1)-th text allocated
  is the rendering of the counter plus i + 1 modulo 1000000: among 1000000 successive
  allocations no two texts are equal, and the sequence repeats after 1000000.
\<close>

theorem getSTAN_cycle:
  assumes "stan_ok c"
  shows "sint (stan (fst (getSTAN c))) = (if sint (stan c) = 999999 then 0 else sint (stan c) + 1)
       \<and> stan_ok (fst (getSTAN c))
       \<and> snd (getSTAN c) = Sprintf_06d (sint (stan (fst (getSTAN c))))
       \<and> length (snd (getSTAN c)) = 6
       \<and> (\<forall>ch \<in> set (snd (getSTAN c)). is_digit ch)
       \<and> int (dec_val (snd (getSTAN c))) = sint (stan (fst (getSTAN c)))
       \<and> (\<forall>i. emitted c i = Sprintf_06d ((sint (stan c) + 1 + int i) mod 1000000))
       \<and> (\<forall>i j. i < j \<and> j < i + 1000000 \<longrightarrow> emitted c i \<noteq> emitted c j)
       \<and> (\<forall>i. emitted c (i + 1000000) = emitted c i)"
proof -
  from assms have b: "0 \<le> sint (stan c)" "sint (stan c) \<le> 999999"
    by (simp_all add: stan_ok_def)
  have 1: "sint (stan (fst (getSTAN c))) = (if sint (stan c) = 999999 then 0 else sint (stan c) + 1)"
    using getSTAN_stan [OF assms] b by simp
  have ok: "stan_ok (fst (getSTAN c))" by (rule getSTAN_stan_ok [OF assms])
  then have r: "0 \<le> sint (stan (fst (getSTAN c)))" "sint (stan (fst (getSTAN c))) \<le> 999999"
    by (simp_all add: stan_ok_def)
  have 3: "snd (getSTAN c) = Sprintf_06d (sint (stan (fst (getSTAN c))))" by (rule getSTAN_text)
  have 4: "length (snd (getSTAN c)) = 6" unfolding 3 by (rule Sprintf_06d_six(1) [OF r])
  have 5: "\<forall>ch \<in> set (snd (getSTAN c)). is_digit ch" unfolding 3 by (rule Sprintf_06d_six(2) [OF r])
  have 6: "int (dec_val (snd (getSTAN c))) = sint (stan (fst (getSTAN c)))"
    unfolding 3 by (rule Sprintf_06d_six(3) [OF r])
  have 7: "\<forall>i. emitted c i = Sprintf_06d ((sint (stan c) + 1 + int i) mod 1000000)"
    using emitted_value [OF assms] by simp
  have 8: "\<forall>i j. i < j \<and> j < i + 1000000 \<longrightarrow> emitted c i \<noteq> emitted c j"
    using emitted_distinct [OF assms] by blast
  have "(sint (stan c) + 1 + int (i + 1000000)) mod 1000000 = (sint (stan c) + 1 + int i) mod 1000000" for i
    by (simp only: of_nat_add of_nat_numeral add.assoc [symmetric] mod_add_self2)
  then have 9: "\<forall>i. emitted c (i + 1000000) = emitted c i"
    by (simp only: emitted_value [OF assms] simp_thms)
  from 1 ok 3 4 5 6 7 8 9 show ?thesis by (intro conjI)
qed

text \<open>
  The theorem at the new client and at a client whose counter is 999999: the first text
  is 000001, the text after 999999 is 000000, the first two texts differ.
\<close>

theorem getSTAN_cycle_witness:
  "stan_ok NewClient \<and> stan_ok (NewClient\<lparr>stan := 999999\<rparr>)
   \<and> length (snd (getSTAN NewClient)) = 6
   \<and> emitted NewClient 0 = ''000001''
   \<and> emitted NewClient 0 \<noteq> emitted NewClient 1
   \<and> sint (stan (fst (getSTAN (NewClient\<lparr>stan := 999999\<rparr>)))) = 0
   \<and> emitted (NewClient\<lparr>stan := 999999\<rparr>) 0 = ''000000''"
proof -
  have ok: "stan_ok NewClient" by (simp add: stan_ok_def NewClient_def)
  have ok9: "stan_ok (NewClient\<lparr>stan := 999999\<rparr>)" by (simp add: stan_ok_def)
  note n = getSTAN_cycle [OF ok]
  note m = getSTAN_cycle [OF ok9]
  from n have 1: "length (snd (getSTAN NewClient)) = 6" by (elim conjE)
  from n have "emitted NewClient 0 = Sprintf_06d ((sint (stan NewClient) + 1 + int 0) mod 1000000)"
    by (elim conjE allE)
  then have 2: "emitted NewClient 0 = ''000001''" by (simp add: NewClient_def Sprintf_06d_1)
  from n have "0 < (1::nat) \<and> (1::nat) < 0 + 1000000 \<longrightarrow> emitted NewClient 0 \<noteq> emitted NewClient 1"
    by (elim conjE allE)
  then have 3: "emitted NewClient 0 \<noteq> emitted NewClient 1" by simp
  from m have 4: "sint (stan (fst (getSTAN (NewClient\<lparr>stan := 999999\<rparr>)))) = 0"
    by (elim conjE) simp
  from m have "emitted (NewClient\<lparr>stan := 999999\<rparr>) 0 =
      Sprintf_06d ((sint (stan (NewClient\<lparr>stan := 999999\<rparr>)) + 1 + int 0) mod 1000000)"
    by (elim conjE allE)
  then have 5: "emitted (NewClient\<lparr>stan := 999999\<rparr>) 0 = ''000000''" by (simp add: Sprintf_06d_0)
  from ok ok9 1 2 3 4 5 show ?thesis by (intro conjI)
qed

section \<open>Send\<close>

lemma getSTAN_changes: "stan (fst (getSTAN c)) \<noteq> stan c"
proof -
  have "stan c + 1 \<noteq> stan c" by simp
  moreover have "\<not> (999999 <s stan c + 1 \<and> stan c = 0)" by (auto simp: word_sless_alt)
  ultimately show ?thesis by (auto simp: getSTAN_def Let_def)
qed

lemma getSTAN_rest:
  "conn (fst (getSTAN c)) = conn c" "requestsCh (fst (getSTAN c)) = requestsCh c"
  "respMap (fst (getSTAN c)) = respMap c" "closing (fst (getSTAN c)) = closing c"
  by (simp_all add: getSTAN_def Let_def)

lemma setMessageSTAN_rest:
  "conn (fst (setMessageSTAN cd c m)) = conn c"
  "respMap (fst (setMessageSTAN cd c m)) = respMap c"
  "requestsCh (fst (setMessageSTAN cd c m)) = requestsCh c"
  "closing (fst (setMessageSTAN cd c m)) = closing c"
  by (simp_all add: setMessageSTAN_def getSTAN_rest Let_def split_def split: sum.splits option.splits)

lemma Send_rest:
  "conn (fst (Send cd fr c m)) = conn c"
  "respMap (fst (Send cd fr c m)) = respMap c"
  "closing (fst (Send cd fr c m)) = closing c"
  using setMessageSTAN_rest [of cd c m]
  by (simp_all add: Send_def Let_def split_def split: sum.splits option.splits)

lemma Send_queue:
  "requestsCh (fst (Send cd fr c m)) =
     (case snd (snd (Send cd fr c m)) of Inl e \<Rightarrow> requestsCh c | Inr req \<Rightarrow> requestsCh c @ [req])"
  using setMessageSTAN_rest [of cd c m]
  by (simp add: Send_def Let_def split_def split: sum.splits option.splits)

lemma Send_request:
  assumes "Send cd fr c message = (c1, m1, Inr req)"
  shows "\<not> closing c"
    and "\<exists>c0. setMessageSTAN cd c message = (c0, m1, None) \<and> c1 = c0\<lparr>requestsCh := requestsCh c0 @ [req]\<rparr>"
    and "requestID cd m1 = Inr (reqID req)" and "replyCh req = fr" and "errCh req = Suc fr"
  using assms
  by (auto simp: Send_def Let_def split: if_splits prod.splits option.splits sum.splits)

lemma setMessageSTAN_set:
  assumes "GetString cd message 11 = Inr t" "t \<noteq> []"
  shows "setMessageSTAN cd c message =
           (c, fst (Field cd message 11 t),
            map_option (Errorf (''setting STAN (field 11): '' @ t @ '' of the message''))
              (snd (Field cd message 11 t)))"
  using assms by (simp add: setMessageSTAN_def split: prod.splits option.splits)

lemma setMessageSTAN_empty:
  assumes "GetString cd message 11 = Inr []"
  shows "setMessageSTAN cd c message =
           (fst (getSTAN c), fst (Field cd message 11 (snd (getSTAN c))),
            map_option (Errorf (''setting STAN (field 11): '' @ snd (getSTAN c) @ '' of the message''))
              (snd (Field cd message 11 (snd (getSTAN c)))))"
  using assms by (simp add: setMessageSTAN_def split: prod.splits option.splits)

lemma setMessageSTAN_field:
  assumes "field_law cd" "GetString cd message 11 = Inr t"
    "setMessageSTAN cd c message = (c1, m1, None)"
  shows "GetString cd m1 11 = Inr (if t = [] then snd (getSTAN c) else t)"
proof (cases "t = []")
  case True
  with assms(2,3) have "Field cd message 11 (snd (getSTAN c)) = (m1, None)"
    by (simp add: setMessageSTAN_empty prod_eq_iff)
  with assms(1) True show ?thesis unfolding field_law_def by auto
next
  case False
  with assms(2,3) have "Field cd message 11 t = (m1, None)"
    by (simp add: setMessageSTAN_set prod_eq_iff)
  with assms(1) False show ?thesis unfolding field_law_def by auto
qed

lemma listCodec_law: "field_law listCodec"
  by (simp add: field_law_def listCodec_def)

text \<open>
  C5. When the closing flag is set, \<open>Send\<close> returns \<open>ErrConnectionClosed\<close> at once: the
  client (its connection with the bytes written, the requests offered to the writer, the
  table, the counter) and the message are as they were, and so is the whole program.
\<close>

theorem Send_closing:
  assumes "closing (client s)"
  shows "Send cd (fresh s) (client s) message = (client s, message, Inl ErrConnectionClosed)
       \<and> step cd s (CallSend message) = s"
  using assms by (simp add: Send_def step.simps step_Send_def)

text \<open>The theorem at the client that was connected and then closed.\<close>

theorem Send_closing_witness:
  "closing (client after_Close)
   \<and> Send listCodec (fresh after_Close) (client after_Close) [(2, ''4111'')] =
       (client after_Close, [(2, ''4111'')], Inl ErrConnectionClosed)
   \<and> step listCodec after_Close (CallSend [(2, ''4111'')]) = after_Close"
proof -
  have h: "closing (client after_Close)" by (simp add: after_Close_eq)
  from Send_closing [OF h, of listCodec "[(2, ''4111'')]"] h show ?thesis by simp
qed

text \<open>
  C7. Let the message's field 11 read as \<open>t\<close>. If \<open>t\<close> is not empty, \<open>setMessageSTAN\<close>
  leaves the client alone (the generator is not invoked) and stores \<open>t\<close> itself in field
  11. If \<open>t\<close> is empty, it invokes the generator once (the counter changes) and stores the
  text generated. A \<open>Send\<close> that offers its request has moved the counter exactly in the
  second case; with a library that reads back what it stores, field 11 of the message and
  the key of the request are \<open>t\<close> in the first case, the generated text in the second.
\<close>

theorem setMessageSTAN_populates:
  assumes "GetString cd message 11 = Inr t"
  shows "(t \<noteq> [] \<longrightarrow>
            setMessageSTAN cd c message =
              (c, fst (Field cd message 11 t),
               map_option (Errorf (''setting STAN (field 11): '' @ t @ '' of the message''))
                 (snd (Field cd message 11 t))))
       \<and> (t = [] \<longrightarrow>
            setMessageSTAN cd c message =
              (fst (getSTAN c), fst (Field cd message 11 (snd (getSTAN c))),
               map_option (Errorf (''setting STAN (field 11): '' @ snd (getSTAN c) @ '' of the message''))
                 (snd (Field cd message 11 (snd (getSTAN c)))))
            \<and> stan (fst (getSTAN c)) \<noteq> stan c)
       \<and> (\<forall>fr c1 m1 req. Send cd fr c message = (c1, m1, Inr req) \<longrightarrow>
            stan c1 = (if t = [] then stan (fst (getSTAN c)) else stan c)
            \<and> (field_law cd \<longrightarrow>
                 GetString cd m1 11 = Inr (if t = [] then snd (getSTAN c) else t)
                 \<and> reqID req = (if t = [] then snd (getSTAN c) else t)))"
proof (intro conjI impI allI)
  assume "t \<noteq> []"
  with assms show "setMessageSTAN cd c message =
              (c, fst (Field cd message 11 t),
               map_option (Errorf (''setting STAN (field 11): '' @ t @ '' of the message''))
                 (snd (Field cd message 11 t)))"
    by (rule setMessageSTAN_set)
next
  assume "t = []"
  with assms show "setMessageSTAN cd c message =
              (fst (getSTAN c), fst (Field cd message 11 (snd (getSTAN c))),
               map_option (Errorf (''setting STAN (field 11): '' @ snd (getSTAN c) @ '' of the message''))
                 (snd (Field cd message 11 (snd (getSTAN c)))))"
    by (simp add: setMessageSTAN_empty)
next
  show "stan (fst (getSTAN c)) \<noteq> stan c" by (rule getSTAN_changes)
next
  fix fr c1 m1 req
  assume snd: "Send cd fr c message = (c1, m1, Inr req)"
  from Send_request(2) [OF snd] obtain c0 where
    c0: "setMessageSTAN cd c message = (c0, m1, None)" "c1 = c0\<lparr>requestsCh := requestsCh c0 @ [req]\<rparr>"
    by blast
  show "stan c1 = (if t = [] then stan (fst (getSTAN c)) else stan c)"
  proof (cases "t = []")
    case True
    with assms c0 show ?thesis by (simp add: setMessageSTAN_empty)
  next
    case False
    with assms c0 show ?thesis by (simp add: setMessageSTAN_set)
  qed
  assume law: "field_law cd"
  show g: "GetString cd m1 11 = Inr (if t = [] then snd (getSTAN c) else t)"
    by (rule setMessageSTAN_field [OF law assms c0(1)])
  from Send_request(3) [OF snd] g
  show "reqID req = (if t = [] then snd (getSTAN c) else t)"
    by (simp add: requestID_def)
qed

text \<open>
  The theorem at a message that carries the STAN 000123 and at one that carries none,
  both sent through the new client.
\<close>

theorem setMessageSTAN_populates_witness:
  "GetString listCodec [(11, ''000123''), (2, ''4111'')] 11 = Inr ''000123''
   \<and> GetString listCodec [(2, ''4111'')] 11 = Inr []
   \<and> field_law listCodec
   \<and> Send listCodec 0 NewClient [(11, ''000123''), (2, ''4111'')] =
       (NewClient\<lparr>requestsCh := [request_a]\<rparr>, [(11, ''000123''), (2, ''4111'')], Inr request_a)
   \<and> stan (NewClient\<lparr>requestsCh := [request_a]\<rparr>) = stan NewClient
   \<and> reqID request_a = ''000123''
   \<and> Send listCodec 0 NewClient [(2, ''4111'')] =
       (NewClient\<lparr>requestsCh := [request1], stan := 1\<rparr>, [(11, ''000001''), (2, ''4111'')], Inr request1)
   \<and> stan (NewClient\<lparr>requestsCh := [request1], stan := 1\<rparr>) = stan (fst (getSTAN NewClient))
   \<and> reqID request1 = snd (getSTAN NewClient)"
proof -
  have g1: "GetString listCodec [(11, ''000123''), (2, ''4111'')] 11 = Inr ''000123''"
    by (simp add: listCodec_def)
  have g2: "GetString listCodec [(2, ''4111'')] 11 = Inr []"
    by (simp add: listCodec_def)
  have s1: "Send listCodec 0 NewClient [(11, ''000123''), (2, ''4111'')] =
       (NewClient\<lparr>requestsCh := [request_a]\<rparr>, [(11, ''000123''), (2, ''4111'')], Inr request_a)"
    by (simp add: eval_defs request_a_def)
  have s2: "Send listCodec 0 NewClient [(2, ''4111'')] =
       (NewClient\<lparr>requestsCh := [request1], stan := 1\<rparr>, [(11, ''000001''), (2, ''4111'')], Inr request1)"
    by (simp add: eval_defs request1_def)
  from setMessageSTAN_populates [OF g1, of NewClient] s1 listCodec_law
  have a: "stan (NewClient\<lparr>requestsCh := [request_a]\<rparr>) = stan NewClient"
    and b: "reqID request_a = ''000123''"
    by auto
  from setMessageSTAN_populates [OF g2, of NewClient] s2 listCodec_law
  have c: "stan (NewClient\<lparr>requestsCh := [request1], stan := 1\<rparr>) = stan (fst (getSTAN NewClient))"
    and d: "reqID request1 = snd (getSTAN NewClient)"
    by auto
  from g1 g2 listCodec_law s1 a b s2 c d show ?thesis by (intro conjI)
qed

section \<open>Close\<close>

text \<open>
  C10. \<open>Close\<close> on the new client, or on a client whose \<open>Connect\<close> failed, sets the flag
  and panics on the nil connection. \<open>Close\<close> panics exactly when the connection is nil;
  a \<open>Connect\<close> that succeeds assigns the connection, and \<open>Send\<close> never assigns it.
\<close>

theorem Close_without_Connect:
  "Close NewClient = (NewClient\<lparr>closing := True\<rparr>, Inl NilPointerDereference)
   \<and> (\<forall>addr e. Close (fst (Connect NewClient addr (Inl e))) =
                  (NewClient\<lparr>closing := True\<rparr>, Inl NilPointerDereference))
   \<and> (\<forall>c. (\<exists>c1 p. Close c = (c1, Inl p)) \<longleftrightarrow> conn c = None)
   \<and> (\<forall>c addr cn. conn (fst (Connect c addr (Inr cn))) = Some cn)
   \<and> (\<forall>cd fr c m. conn (fst (Send cd fr c m)) = conn c)"
proof (intro conjI allI)
  show "Close NewClient = (NewClient\<lparr>closing := True\<rparr>, Inl NilPointerDereference)"
    by (simp add: Close_def NewClient_def)
  show "Close (fst (Connect NewClient addr (Inl e))) =
                  (NewClient\<lparr>closing := True\<rparr>, Inl NilPointerDereference)" for addr e
    by (simp add: Close_def Connect_def NewClient_def)
  show "(\<exists>c1 p. Close c = (c1, Inl p)) \<longleftrightarrow> conn c = None" for c
    by (auto simp: Close_def Let_def split: option.splits)
  show "conn (fst (Connect c addr (Inr cn))) = Some cn" for c addr cn
    by (simp add: Connect_def)
  show "conn (fst (Send cd fr c m)) = conn c" for cd :: "'m codec" and fr c m
    by (rule Send_rest)
qed

text \<open>
  The theorem at the new client, whose \<open>Close\<close> panics, and at the client connected to
  \<open>dialled\<close>, whose \<open>Close\<close> returns.
\<close>

theorem Close_without_Connect_witness:
  "conn NewClient = None
   \<and> (\<exists>c1 p. Close NewClient = (c1, Inl p))
   \<and> conn (fst (Connect NewClient ''127.0.0.1:8583'' (Inr dialled))) = Some dialled
   \<and> \<not> (\<exists>c1 p. Close (fst (Connect NewClient ''127.0.0.1:8583'' (Inr dialled))) = (c1, Inl p))"
proof -
  have n: "conn NewClient = None" by (simp add: NewClient_def)
  from Close_without_Connect have 1: "\<exists>c1 p. Close NewClient = (c1, Inl p)" by blast
  from Close_without_Connect
  have 2: "conn (fst (Connect NewClient ''127.0.0.1:8583'' (Inr dialled))) = Some dialled"
    by blast
  from Close_without_Connect
  have "(\<exists>c1 p. Close (fst (Connect NewClient ''127.0.0.1:8583'' (Inr dialled))) = (c1, Inl p))
          \<longleftrightarrow> conn (fst (Connect NewClient ''127.0.0.1:8583'' (Inr dialled))) = None"
    by blast
  with 2 have 3: "\<not> (\<exists>c1 p. Close (fst (Connect NewClient ''127.0.0.1:8583'' (Inr dialled))) = (c1, Inl p))"
    by simp
  from n 1 2 3 show ?thesis by (intro conjI)
qed

section \<open>The reader loop's error variable\<close>

lemma readLoop_deliver_outer:
  "readLoop_deliver cd s v inb = (s1, v1, fl, k) \<Longrightarrow>
     err_outer v1 = err_outer v \<and> stderr s1 = stderr s \<and> earlier s1 = earlier s \<and>
     (fl = Break \<longrightarrow> err_inner v1 \<noteq> None)"
  by (auto simp: readLoop_deliver_def split: sum.splits option.splits)

lemma readLoop_body_outer:
  "readLoop_body cd s v inb = (s1, v1, fl) \<Longrightarrow>
     err_outer v1 = err_outer v \<and> stderr s1 = stderr s \<and> (fl = Break \<longrightarrow> err_inner v1 \<noteq> None)"
proof -
  assume b: "readLoop_body cd s v inb = (s1, v1, fl)"
  obtain s2 v2 fl2 k where d: "readLoop_deliver cd s v inb = (s2, v2, fl2, k)"
    by (cases "readLoop_deliver cd s v inb")
  have "v1 = v2 \<and> fl = fl2 \<and> stderr s1 = stderr s2"
  proof (cases k)
    case None
    with b d show ?thesis by (simp add: readLoop_body_def)
  next
    case (Some rid)
    with b d show ?thesis by (auto simp: readLoop_body_def readLoop_delete_def)
  qed
  with readLoop_deliver_outer [OF d] show ?thesis by simp
qed

lemma readLoop_for_outer:
  "readLoop_for cd s v script = (s1, v1, fl) \<Longrightarrow>
     err_outer v1 = err_outer v \<and> stderr s1 = stderr s \<and> (fl = Break \<longrightarrow> err_inner v1 \<noteq> None)"
proof (induction script arbitrary: s v)
  case Nil
  then show ?case by simp
next
  case (Cons inb rest)
  obtain s2 v2 fl2 where b: "readLoop_body cd s v inb = (s2, v2, fl2)"
    by (cases "readLoop_body cd s v inb")
  note o = readLoop_body_outer [OF b]
  show ?case
  proof (cases "fl2 = Continue")
    case True
    with Cons.prems b have "readLoop_for cd s2 v2 rest = (s1, v1, fl)" by simp
    from Cons.IH [OF this] o show ?thesis by simp
  next
    case False
    with Cons.prems b have "(s1, v1, fl) = (s2, v2, fl2)" by (cases fl2) simp_all
    with o show ?thesis by simp
  qed
qed

lemma step_Reader_outer:
  assumes "err_outer (reader_vars s) = None"
  shows "err_outer (reader_vars (step_Reader cd s inb)) = None
       \<and> stderr (step_Reader cd s inb) = stderr s
       \<and> earlier (step_Reader cd s inb) = earlier s"
proof (cases "reader s = Running \<and> reader_key s = None")
  case False
  with assms show ?thesis by (auto simp: step_Reader_def)
next
  case True
  obtain s1 v1 fl k where b: "readLoop_deliver cd s (reader_vars s) inb = (s1, v1, fl, k)"
    by (cases "readLoop_deliver cd s (reader_vars s) inb")
  from readLoop_deliver_outer [OF b] assms
  have o: "err_outer v1 = None" "stderr s1 = stderr s" "earlier s1 = earlier s" by simp_all
  from True b o show ?thesis
    by (cases fl) (simp_all add: step_Reader_def readLoop_exit_def)
qed

lemma turn_outer:
  assumes "err_outer (reader_vars s) = None"
  shows "err_outer (reader_vars (turn cd s a)) = None
       \<and> stderr (turn cd s a) = stderr s
       \<and> earlier (turn cd s a) = earlier s"
proof (cases a)
  case (WriterReceive i)
  with assms show ?thesis
    by (simp add: step_WriterReceive_def writeLoop_register_def Let_def)
next
  case (WriterWrite wres)
  with assms show ?thesis
    by (simp add: step_WriterWrite_def writeLoop_write_def split: option.splits)
next
  case (ReaderTurn inb)
  with step_Reader_outer [OF assms, of cd inb] show ?thesis by simp
next
  case ReaderDelete
  with assms show ?thesis
    by (simp add: step_ReaderDelete_def readLoop_delete_def split: option.splits)
qed (use assms in simp_all)

lemma on_earlier_quiet:
  assumes "quiet s"
  shows "quiet (on_earlier j (\<lambda>s1. turn cd s1 b) s)
       \<and> stderr (on_earlier j (\<lambda>s1. turn cd s1 b) s) = stderr s"
proof (cases "j < length (earlier s)")
  case False
  with assms show ?thesis by (simp add: on_earlier_def)
next
  case True
  let ?l = "earlier s ! j"
  let ?s1 = "turn cd (load ?l s) b"
  from True have "?l \<in> set (earlier s)" by simp
  with assms have "err_outer (reader_vars (load ?l s)) = None"
    by (simp add: quiet_def load_def)
  from turn_outer [OF this, of cd b]
  have o: "err_outer (reader_vars ?s1) = None" "stderr ?s1 = stderr s" "earlier ?s1 = earlier s"
    by (simp_all add: load_def)
  have r: "on_earlier j (\<lambda>s1. turn cd s1 b) s =
             load (save s) (?s1\<lparr>earlier := (earlier s)[j := save ?s1]\<rparr>)"
    using True by (simp add: on_earlier_def Let_def)
  have "set ((earlier s)[j := save ?s1]) \<subseteq> insert (save ?s1) (set (earlier s))"
    by (rule set_update_subset_insert)
  moreover have "err_outer (reader_vars (save ?s1)) = None" using o(1) by (simp add: save_def)
  ultimately have "\<forall>l \<in> set ((earlier s)[j := save ?s1]). err_outer (reader_vars l) = None"
    using assms by (auto simp: quiet_def)
  with assms o(2) show ?thesis
    unfolding r by (simp add: quiet_def load_def save_def)
qed

lemma step_quiet:
  assumes "quiet s"
  shows "quiet (step cd s a) \<and> stderr (step cd s a) = stderr s"
proof (cases "crashed s")
  case True
  with assms show ?thesis by (simp add: step.simps)
next
  case False
  from assms have c: "err_outer (reader_vars s) = None" by (simp add: quiet_def)
  have t: "quiet (turn cd s a) \<and> stderr (turn cd s a) = stderr s"
    using turn_outer [OF c, of cd a] assms by (simp add: quiet_def)
  show ?thesis
  proof (cases a)
    case (CallConnect addr dial)
    with False assms show ?thesis
      by (auto simp: step.simps step_Connect_def Connect_def quiet_def save_def split: sum.splits)
  next
    case (CallSend message)
    with False assms show ?thesis
      by (simp add: step.simps step_Send_def quiet_def split: prod.splits sum.splits)
  next
    case CallClose
    with False assms show ?thesis
      by (simp add: step.simps step_Close_def quiet_def split: prod.splits sum.splits)
  next
    case (Earlier j b)
    with False on_earlier_quiet [OF assms, of j cd b] show ?thesis by (simp add: step.simps)
  next
    case (WriterReceive i)
    with False t show ?thesis by (simp add: step.simps)
  next
    case (WriterWrite wres)
    with False t show ?thesis by (simp add: step.simps)
  next
    case (ReaderTurn inb)
    with False t show ?thesis by (simp add: step.simps)
  next
    case ReaderDelete
    with False t show ?thesis by (simp add: step.simps)
  qed
qed

lemma run_quiet:
  "quiet s \<Longrightarrow> quiet (run cd s acts) \<and> stderr (run cd s acts) = stderr s"
  unfolding run_def
proof (induction acts arbitrary: s)
  case Nil
  then show ?case by simp
next
  case (Cons a acts)
  from step_quiet [OF Cons.prems, of cd a]
  have 1: "quiet (step cd s a)" and 2: "stderr (step cd s a) = stderr s"
    by simp_all
  from Cons.IH [OF 1] 2 show ?case by simp
qed

text \<open>
  C9. However the loop of \<open>readLoop\<close> runs, the variable \<open>err\<close> declared before the
  loop is nil when the loop is left, while the loop's own \<open>err\<close> holds the failure that
  ended it. So \<open>readLoop\<close> prints nothing: when it returns, the standard error is what it
  was; and in every run of the program from its start the outer variable is nil and
  nothing was printed.
\<close>

theorem readLoop_err_nil:
  "(\<forall>s1 v1 fl. readLoop_for cd s \<lparr>err_outer = None, err_inner = None\<rparr> script = (s1, v1, fl) \<longrightarrow>
       err_outer v1 = None \<and> (fl = Break \<longrightarrow> err_inner v1 \<noteq> None))
   \<and> (\<forall>s2. readLoop cd s script = Some s2 \<longrightarrow> stderr s2 = stderr s)
   \<and> err_outer (reader_vars (run cd init acts)) = None
   \<and> stderr (run cd init acts) = []"
proof (intro conjI allI impI)
  fix s1 v1 fl
  assume a: "readLoop_for cd s \<lparr>err_outer = None, err_inner = None\<rparr> script = (s1, v1, fl)"
  from readLoop_for_outer [OF a] show "err_outer v1 = None" by simp
  assume "fl = Break"
  with readLoop_for_outer [OF a] show "err_inner v1 \<noteq> None" by simp
next
  fix s2 assume a: "readLoop cd s script = Some s2"
  obtain s1 v1 fl where f: "readLoop_for cd s \<lparr>err_outer = None, err_inner = None\<rparr> script = (s1, v1, fl)"
    by (cases "readLoop_for cd s \<lparr>err_outer = None, err_inner = None\<rparr> script")
  from readLoop_for_outer [OF f] have o: "err_outer v1 = None" "stderr s1 = stderr s" by simp_all
  from a f have "s2 = readLoop_exit s1 (err_outer v1)"
    by (cases fl) (simp_all add: readLoop_def)
  with o show "stderr s2 = stderr s" by (simp add: readLoop_exit_def)
next
  have i: "quiet (init :: 'a system)" by (simp add: quiet_def init_def)
  from run_quiet [OF i, of cd acts]
  show "err_outer (reader_vars (run cd init acts)) = None" by (simp add: quiet_def)
  from run_quiet [OF i, of cd acts]
  show "stderr (run cd init acts) = []" by (simp add: init_def)
qed

text \<open>
  The theorem at the program with one request pending (the client is not closing), when
  the reader reads one unmatched frame and then fails: the loop is left with the failure
  in its own variable, \<open>readLoop\<close> returns, and nothing is printed.
\<close>

theorem readLoop_err_nil_witness:
  "readLoop_for listCodec pending \<lparr>err_outer = None, err_inner = None\<rparr> [frame ''000007'', read_fails] =
     (pending, \<lparr>err_outer = None, err_inner = Some (Failure ''use of closed network connection'')\<rparr>, Break)
   \<and> readLoop listCodec pending [frame ''000007'', read_fails] = Some pending
   \<and> \<not> closing (client pending)
   \<and> stderr pending = []"
proof -
  have f: "readLoop_for listCodec pending \<lparr>err_outer = None, err_inner = None\<rparr> [frame ''000007'', read_fails] =
     (pending, \<lparr>err_outer = None, err_inner = Some (Failure ''use of closed network connection'')\<rparr>, Break)"
    by (simp add: pending_eq) (simp add: eval_defs)
  then have r: "readLoop listCodec pending [frame ''000007'', read_fails] = Some pending"
    by (simp add: readLoop_def readLoop_exit_def)
  have c: "\<not> closing (client pending)" by (simp add: pending_eq)
  from readLoop_err_nil [of listCodec pending "[frame ''000007'', read_fails]"
      "[connect_ok, CallSend [(2, ''4111'')], WriterReceive 0, WriterWrite None]"]
  have "stderr (run listCodec init [connect_ok, CallSend [(2, ''4111'')], WriterReceive 0, WriterWrite None]) = []"
    by (elim conjE)
  then have e: "stderr pending = []" by (simp only: pending_def)
  from f r c e show ?thesis by (intro conjI)
qed

section \<open>Replies reach the request they answer\<close>

subsection \<open>Sends on the channels\<close>

lemma send_reply_calls:
  "send_reply ch m cs = Some cs1 \<Longrightarrow>
     map fst cs1 = map fst cs \<and>
     (\<forall>r st. (r, st) \<in> set cs1 \<longrightarrow>
        (r, st) \<in> set cs \<or> (st = Returned (Some m) None \<and> replyCh r = ch))"
  by (induction ch m cs arbitrary: cs1 rule: send_reply.induct) (fastforce split: if_splits)+

lemma send_err_calls:
  "send_err ch err cs = Some cs1 \<Longrightarrow>
     map fst cs1 = map fst cs \<and>
     (\<forall>r st. (r, st) \<in> set cs1 \<longrightarrow> (r, st) \<in> set cs \<or> st = Returned None (Some err))"
  by (induction ch err cs arbitrary: cs1 rule: send_err.induct) (fastforce split: if_splits)+

lemma send_err_reply:
  assumes "send_err ch err cs = Some cs1" "(r, Returned (Some reply) e) \<in> set cs1"
  shows "(r, Returned (Some reply) e) \<in> set cs"
proof -
  from send_err_calls [OF assms(1)]
  have "(r, Returned (Some reply) e) \<in> set cs1 \<longrightarrow>
          (r, Returned (Some reply) e) \<in> set cs \<or> Returned (Some reply) e = Returned None (Some err)"
    by (elim conjE allE)
  with assms(2) show ?thesis by simp
qed

lemma send_err_requests: "send_err ch err cs = Some cs1 \<Longrightarrow> map fst cs1 = map fst cs"
  by (drule send_err_calls) (erule conjunct1)

lemma send_reply_requests: "send_reply ch m cs = Some cs1 \<Longrightarrow> map fst cs1 = map fst cs"
  by (drule send_reply_calls) (erule conjunct1)

lemma send_reply_reply:
  assumes "send_reply ch m cs = Some cs1" "(r, Returned (Some reply) e) \<in> set cs1"
  shows "(r, Returned (Some reply) e) \<in> set cs \<or> (reply = m \<and> replyCh r = ch)"
proof -
  from send_reply_calls [OF assms(1)]
  have "(r, Returned (Some reply) e) \<in> set cs1 \<longrightarrow>
          (r, Returned (Some reply) e) \<in> set cs \<or>
          (Returned (Some reply) e = Returned (Some m) None \<and> replyCh r = ch)"
    by (elim conjE allE)
  with assms(2) show ?thesis by auto
qed



lemma distinct_waiting:
  assumes "distinct (map (\<lambda>c. replyCh (fst c)) cs)" "(r1, st1) \<in> set cs" "(r2, st2) \<in> set cs"
    "replyCh r1 = replyCh r2"
  shows "r1 = r2 \<and> st1 = st2"
proof -
  from assms(1) have "inj_on (\<lambda>c. replyCh (fst c)) (set cs)" by (simp add: distinct_map)
  from inj_onD [OF this _ assms(2,3)] assms(4) show ?thesis by simp
qed

lemma requests_map: "map fst (calls s1) = map fst (calls s) \<Longrightarrow> requests s1 = requests s"
  unfolding requests_def by (metis set_map)

lemma channels_map:
  "map fst cs1 = map fst cs \<Longrightarrow>
     map (\<lambda>c. replyCh (fst c)) cs1 = map (\<lambda>c. replyCh (fst c)) cs"
proof -
  assume "map fst cs1 = map fst cs"
  then have "map replyCh (map fst cs1) = map replyCh (map fst cs)" by simp
  then show ?thesis by (simp add: comp_def)
qed

subsection \<open>The invariant holds in every run\<close>

lemma consistent_cong:
  assumes "calls s1 = calls s" "fresh s1 = fresh s"
    "requestsCh (client s1) = requestsCh (client s)" "respMap (client s1) = respMap (client s)"
  shows "consistent cd s1 = consistent cd s"
  using assms by (simp add: consistent_def requests_def)

lemma consistentI:
  assumes "\<And>r. r \<in> requests s \<Longrightarrow> replyCh r < fresh s"
    and "distinct (map (\<lambda>c. replyCh (fst c)) (calls s))"
    and "set (requestsCh (client s)) \<subseteq> requests s"
    and "\<And>k ch. respMap (client s) k = Some ch \<Longrightarrow> ch < fresh s"
    and "\<And>k ch r. respMap (client s) k = Some ch \<Longrightarrow> r \<in> requests s \<Longrightarrow> replyCh r = ch \<Longrightarrow> reqID r = k"
    and "\<And>r reply e. (r, Returned (Some reply) e) \<in> set (calls s) \<Longrightarrow> requestID cd reply = Inr (reqID r)"
  shows "consistent cd s"
  unfolding consistent_def using assms by (intro conjI) blast+

lemma consistentD:
  assumes "consistent cd s"
  shows "r \<in> requests s \<Longrightarrow> replyCh r < fresh s"
    and "distinct (map (\<lambda>c. replyCh (fst c)) (calls s))"
    and "set (requestsCh (client s)) \<subseteq> requests s"
    and "respMap (client s) k = Some ch \<Longrightarrow> ch < fresh s"
    and "respMap (client s) k = Some ch \<Longrightarrow> r \<in> requests s \<Longrightarrow> replyCh r = ch \<Longrightarrow> reqID r = k"
    and "(r, Returned (Some reply) e) \<in> set (calls s) \<Longrightarrow> requestID cd reply = Inr (reqID r)"
  using assms unfolding consistent_def by blast+

lemma consistent_Connect: "consistent cd (step_Connect s addr dial) = consistent cd s"
  by (rule consistent_cong) (simp_all add: step_Connect_def Connect_def split: sum.splits)

lemma consistent_Close: "consistent cd (step_Close s) = consistent cd s"
  by (rule consistent_cong) (simp_all add: step_Close_def Close_def Let_def split: option.splits)

lemma consistent_Send:
  assumes "consistent cd s"
  shows "consistent cd (step_Send cd s message)"
proof (cases "snd (snd (Send cd (fresh s) (client s) message))")
  case (Inl e)
  then have "step_Send cd s message = s\<lparr>client := fst (Send cd (fresh s) (client s) message)\<rparr>"
    by (simp add: step_Send_def split_def)
  moreover have "requestsCh (fst (Send cd (fresh s) (client s) message)) = requestsCh (client s)"
    using Inl by (simp add: Send_queue)
  ultimately have "consistent cd (step_Send cd s message) = consistent cd s"
    by (intro consistent_cong) (simp_all add: Send_rest)
  with assms show ?thesis by simp
next
  case (Inr req)
  let ?s1 = "step_Send cd s message"
  from Inr have st: "?s1 =
      s\<lparr>client := fst (Send cd (fresh s) (client s) message),
        calls := calls s @ [(req, Waiting)], fresh := Suc (Suc (fresh s))\<rparr>"
    by (simp add: step_Send_def split_def)
  have q: "requestsCh (client ?s1) = requestsCh (client s) @ [req]"
    using Inr by (simp add: st Send_queue)
  have m: "respMap (client ?s1) = respMap (client s)" by (simp add: st Send_rest)
  have f: "fresh ?s1 = Suc (Suc (fresh s))" by (simp add: st)
  have c: "calls ?s1 = calls s @ [(req, Waiting)]" by (simp add: st)
  have rq: "requests ?s1 = insert req (requests s)" by (simp add: requests_def c)
  have "Send cd (fresh s) (client s) message =
          (fst (Send cd (fresh s) (client s) message), fst (snd (Send cd (fresh s) (client s) message)), Inr req)"
    using Inr by (simp add: prod_eq_iff)
  from Send_request(4) [OF this] have ch: "replyCh req = fresh s" .
  note D = consistentD [OF assms]
  show ?thesis
  proof (rule consistentI)
    fix r assume "r \<in> requests ?s1"
    then show "replyCh r < fresh ?s1" using D(1) [of r] ch by (auto simp: rq f)
  next
    have "fresh s \<notin> (\<lambda>c. replyCh (fst c)) ` set (calls s)"
    proof
      assume "fresh s \<in> (\<lambda>c. replyCh (fst c)) ` set (calls s)"
      then obtain x where x: "x \<in> set (calls s)" "replyCh (fst x) = fresh s" by auto
      then have "fst x \<in> requests s" by (simp add: requests_def)
      from D(1) [OF this] x(2) show False by simp
    qed
    with D(2) ch show "distinct (map (\<lambda>c. replyCh (fst c)) (calls ?s1))" by (simp add: c)
  next
    show "set (requestsCh (client ?s1)) \<subseteq> requests ?s1" using D(3) by (auto simp: q rq)
  next
    fix k ch' assume "respMap (client ?s1) k = Some ch'"
    then show "ch' < fresh ?s1" using D(4) [of k ch'] by (simp add: m f)
  next
    fix k ch' r assume "respMap (client ?s1) k = Some ch'" "r \<in> requests ?s1" "replyCh r = ch'"
    then show "reqID r = k" using D(4) [of k ch'] D(5) [of k ch' r] ch by (auto simp: m rq)
  next
    fix r reply e assume "(r, Returned (Some reply) e) \<in> set (calls ?s1)"
    then show "requestID cd reply = Inr (reqID r)" using D(6) [of r reply e] by (simp add: c)
  qed
qed

lemma step_WriterReceive_shared:
  assumes "writer s = Running" "writer_req s = None" "i < length (requestsCh (client s))"
  shows "calls (step_WriterReceive s i) = calls s"
    and "fresh (step_WriterReceive s i) = fresh s"
    and "requestsCh (client (step_WriterReceive s i)) =
           take i (requestsCh (client s)) @ drop (Suc i) (requestsCh (client s))"
    and "respMap (client (step_WriterReceive s i)) =
           (respMap (client s))(reqID (requestsCh (client s) ! i) \<mapsto> replyCh (requestsCh (client s) ! i))"
  using assms by (simp_all add: step_WriterReceive_def writeLoop_register_def Let_def)

lemma set_without: "set (take i q @ drop (Suc i) q) \<subseteq> set q"
  using set_take_subset [of i q] set_drop_subset [of "Suc i" q] by auto

lemma consistent_WriterReceive:
  assumes "consistent cd s"
  shows "consistent cd (step_WriterReceive s i)"
proof (cases "writer s = Running \<and> writer_req s = None \<and> i < length (requestsCh (client s))")
  case False
  with assms show ?thesis by (auto simp: step_WriterReceive_def)
next
  case True
  let ?q = "requestsCh (client s)"
  let ?s1 = "step_WriterReceive s i"
  from True have g: "writer s = Running" "writer_req s = None" "i < length ?q" by simp_all
  note F = step_WriterReceive_shared [OF g]
  note D = consistentD [OF assms]
  have rq: "requests ?s1 = requests s" by (simp add: requests_def F(1))
  have "?q ! i \<in> set ?q" using g(3) by simp
  with D(3) have mem: "?q ! i \<in> requests s" by auto
  show ?thesis
  proof (rule consistentI)
    fix r assume "r \<in> requests ?s1"
    then show "replyCh r < fresh ?s1" using D(1) [of r] by (simp add: rq F(2))
  next
    show "distinct (map (\<lambda>c. replyCh (fst c)) (calls ?s1))" using D(2) by (simp add: F(1))
  next
    show "set (requestsCh (client ?s1)) \<subseteq> requests ?s1"
      using set_without [of i ?q] D(3) by (auto simp: rq F(3))
  next
    fix k ch assume "respMap (client ?s1) k = Some ch"
    then show "ch < fresh ?s1"
      using D(4) [of k ch] D(1) [OF mem] by (auto simp: F(4) F(2) split: if_splits)
  next
    fix k ch r assume a: "respMap (client ?s1) k = Some ch" "r \<in> requests ?s1" "replyCh r = ch"
    show "reqID r = k"
    proof (cases "k = reqID (?q ! i)")
      case True
      with a(1) have ch: "ch = replyCh (?q ! i)" by (simp add: F(4))
      from a(2) have "r \<in> requests s" by (simp add: rq)
      then obtain st where r: "(r, st) \<in> set (calls s)" by (auto simp: requests_def)
      from mem obtain st' where q: "(?q ! i, st') \<in> set (calls s)" by (auto simp: requests_def)
      from distinct_waiting [OF D(2) r q] a(3) ch have "r = ?q ! i" by simp
      with True show ?thesis by simp
    next
      case False
      with a show ?thesis using D(5) [of k ch r] by (simp add: F(4) rq)
    qed
  next
    fix r reply e assume "(r, Returned (Some reply) e) \<in> set (calls ?s1)"
    then show "requestID cd reply = Inr (reqID r)" using D(6) [of r reply e] by (simp add: F(1))
  qed
qed

lemma writeLoop_write_shared:
  assumes "writeLoop_write s req wres = (s1, fl)"
  shows "respMap (client s1) = respMap (client s)"
    and "requestsCh (client s1) = requestsCh (client s)"
    and "fresh s1 = fresh s"
    and "map fst (calls s1) = map fst (calls s)"
    and "(r, Returned (Some reply) e) \<in> set (calls s1) \<Longrightarrow> (r, Returned (Some reply) e) \<in> set (calls s)"
  using assms
  by (auto simp: writeLoop_write_def split: option.splits
           dest: send_err_reply send_err_requests)

lemma consistent_calls:
  assumes "consistent cd s"
    and "map fst (calls s1) = map fst (calls s)" "fresh s1 = fresh s"
    and "requestsCh (client s1) = requestsCh (client s)"
    and "\<And>k ch. respMap (client s1) k = Some ch \<Longrightarrow> respMap (client s) k = Some ch"
    and "\<And>r reply e. (r, Returned (Some reply) e) \<in> set (calls s1) \<Longrightarrow>
           requestID cd reply = Inr (reqID r)"
  shows "consistent cd s1"
proof -
  note D = consistentD [OF assms(1)]
  have rq: "requests s1 = requests s" using assms(2) by (rule requests_map)
  show ?thesis
  proof (rule consistentI)
    fix r assume "r \<in> requests s1"
    then show "replyCh r < fresh s1" using D(1) [of r] by (simp add: rq assms(3))
  next
    show "distinct (map (\<lambda>c. replyCh (fst c)) (calls s1))"
      using D(2) channels_map [OF assms(2)] by simp
  next
    show "set (requestsCh (client s1)) \<subseteq> requests s1" using D(3) by (simp add: rq assms(4))
  next
    fix k ch assume "respMap (client s1) k = Some ch"
    from assms(5) [OF this] show "ch < fresh s1" using D(4) [of k ch] by (simp add: assms(3))
  next
    fix k ch r assume "respMap (client s1) k = Some ch" "r \<in> requests s1" "replyCh r = ch"
    with assms(5) [of k ch] show "reqID r = k" using D(5) [of k ch r] by (simp add: rq)
  next
    fix r reply e assume "(r, Returned (Some reply) e) \<in> set (calls s1)"
    then show "requestID cd reply = Inr (reqID r)" by (rule assms(6))
  qed
qed

lemma consistent_flag:
  "consistent cd (s\<lparr>writer := g\<rparr>) = consistent cd s"
  "consistent cd (s\<lparr>reader := g\<rparr>) = consistent cd s"
  "consistent cd (s\<lparr>crashed := b\<rparr>) = consistent cd s"
  "consistent cd (s\<lparr>reader_vars := v\<rparr>) = consistent cd s"
  "consistent cd (s\<lparr>stderr := out\<rparr>) = consistent cd s"
  "consistent cd (s\<lparr>writer_req := w\<rparr>) = consistent cd s"
  "consistent cd (s\<lparr>reader_key := ky\<rparr>) = consistent cd s"
  "consistent cd (s\<lparr>earlier := ls\<rparr>) = consistent cd s"
  "consistent cd (load l s) = consistent cd s"
  by (rule consistent_cong; simp add: load_def)+

lemma consistent_WriterWrite:
  assumes "consistent cd s"
  shows "consistent cd (step_WriterWrite s wres)"
proof (cases "writer s = Running")
  case False
  with assms show ?thesis by (simp add: step_WriterWrite_def)
next
  case True
  show ?thesis
  proof (cases "writer_req s")
    case None
    with True assms show ?thesis by (simp add: step_WriterWrite_def)
  next
    case (Some req)
    obtain s1 fl where w: "writeLoop_write s req wres = (s1, fl)"
      by (cases "writeLoop_write s req wres")
    note F = writeLoop_write_shared [OF w]
    have c1: "consistent cd s1"
    proof (rule consistent_calls [OF assms F(4) F(3) F(2)])
      fix k ch assume "respMap (client s1) k = Some ch"
      then show "respMap (client s) k = Some ch" by (simp add: F(1))
    next
      fix r reply e assume "(r, Returned (Some reply) e) \<in> set (calls s1)"
      from F(5) [OF this] show "requestID cd reply = Inr (reqID r)"
        by (rule consistentD(6) [OF assms])
    qed
    from True Some w c1 show ?thesis
      by (cases fl) (simp_all add: step_WriterWrite_def consistent_flag)
  qed
qed

lemma decoded_key: "decoded cd inb = Some (message, rid) \<Longrightarrow> requestID cd message = Inr rid"
  by (auto simp: decoded_def split: sum.splits)

lemma readLoop_deliver_cases:
  assumes "readLoop_deliver cd s v inb = (s1, v1, fl, k)"
  shows "(s1 = s \<and> k = None) \<or>
         (\<exists>message rid ch calls1.
            decoded cd inb = Some (message, rid) \<and>
            respMap (client s) rid = Some ch \<and> send_reply ch message (calls s) = Some calls1 \<and>
            s1 = s\<lparr>calls := calls1\<rparr> \<and> k = Some rid \<and> fl = Continue)"
  using assms
  by (auto simp: readLoop_deliver_def decoded_def split: sum.splits option.splits)

lemma consistent_deliver:
  assumes "consistent cd s" "requestID cd message = Inr rid" "respMap (client s) rid = Some ch"
    "send_reply ch message (calls s) = Some calls1"
  shows "consistent cd (s\<lparr>calls := calls1\<rparr>)"
proof (rule consistent_calls [OF assms(1)])
  show "map fst (calls (s\<lparr>calls := calls1\<rparr>)) = map fst (calls s)"
    using send_reply_requests [OF assms(4)] by simp
next
  fix r reply e assume "(r, Returned (Some reply) e) \<in> set (calls (s\<lparr>calls := calls1\<rparr>))"
  then have in1: "(r, Returned (Some reply) e) \<in> set calls1" by simp
  note D = consistentD [OF assms(1)]
  from send_reply_reply [OF assms(4) in1] show "requestID cd reply = Inr (reqID r)"
  proof
    assume "(r, Returned (Some reply) e) \<in> set (calls s)"
    then show ?thesis by (rule D(6))
  next
    assume a: "reply = message \<and> replyCh r = ch"
    from in1 have "r \<in> fst ` set calls1" by force
    then have "r \<in> requests s" using send_reply_requests [OF assms(4)] unfolding requests_def
      by (metis set_map)
    with D(5) [OF assms(3)] a have "reqID r = rid" by blast
    with a assms(2) show ?thesis by simp
  qed
qed simp_all

lemma consistent_readLoop_exit: "consistent cd (readLoop_exit s err) = consistent cd s"
  by (rule consistent_cong) (simp_all add: readLoop_exit_def split: option.splits)

lemma consistent_Reader:
  assumes "consistent cd s"
  shows "consistent cd (step_Reader cd s inb)"
proof (cases "reader s = Running \<and> reader_key s = None")
  case False
  with assms show ?thesis by (auto simp: step_Reader_def)
next
  case True
  obtain s1 v1 fl k where r: "readLoop_deliver cd s (reader_vars s) inb = (s1, v1, fl, k)"
    by (cases "readLoop_deliver cd s (reader_vars s) inb")
  have c1: "consistent cd s1"
    using readLoop_deliver_cases [OF r] assms
    by (auto intro: consistent_deliver dest: decoded_key)
  from True r show ?thesis using c1
    by (cases fl) (simp_all add: step_Reader_def consistent_flag consistent_readLoop_exit)
qed

lemma consistent_delete:
  assumes "consistent cd s"
  shows "consistent cd (readLoop_delete s rid)"
proof (rule consistent_calls [OF assms])
  fix k ch assume "respMap (client (readLoop_delete s rid)) k = Some ch"
  then show "respMap (client s) k = Some ch"
    by (simp add: readLoop_delete_def split: if_splits)
next
  fix r reply e assume "(r, Returned (Some reply) e) \<in> set (calls (readLoop_delete s rid))"
  then show "requestID cd reply = Inr (reqID r)"
    using consistentD(6) [OF assms] by (simp add: readLoop_delete_def)
qed (simp_all add: readLoop_delete_def)

lemma consistent_ReaderDelete:
  assumes "consistent cd s"
  shows "consistent cd (step_ReaderDelete s)"
  using assms consistent_delete [OF assms]
  by (simp add: step_ReaderDelete_def consistent_flag split: option.splits)

lemma consistent_turn: "consistent cd s \<Longrightarrow> consistent cd (turn cd s a)"
  by (cases a)
     (simp_all add: consistent_WriterReceive consistent_WriterWrite consistent_Reader
        consistent_ReaderDelete)

lemma consistent_on_earlier:
  assumes "consistent cd s"
  shows "consistent cd (on_earlier j (\<lambda>s1. turn cd s1 b) s)"
proof (cases "j < length (earlier s)")
  case False
  with assms show ?thesis by (simp add: on_earlier_def)
next
  case True
  let ?s1 = "turn cd (load (earlier s ! j) s) b"
  have "consistent cd ?s1" using assms by (intro consistent_turn) (simp add: consistent_flag)
  moreover have "on_earlier j (\<lambda>s1. turn cd s1 b) s =
      load (save s) (?s1\<lparr>earlier := (earlier s)[j := save ?s1]\<rparr>)"
    using True by (simp add: on_earlier_def Let_def)
  ultimately show ?thesis by (simp add: consistent_flag)
qed

lemma consistent_step: "consistent cd s \<Longrightarrow> consistent cd (step cd s a)"
  using consistent_turn [of cd s a]
  by (cases a)
     (simp_all add: step.simps consistent_Connect consistent_Send consistent_Close
        consistent_on_earlier)

lemma consistent_run: "consistent cd s \<Longrightarrow> consistent cd (run cd s acts)"
  unfolding run_def by (induction acts arbitrary: s) (simp_all add: consistent_step)

lemma consistent_init: "consistent cd init"
  by (simp add: consistent_def requests_def init_def NewClient_def)

subsection \<open>Handing a reply over\<close>














section \<open>What the loops leave undone\<close>

lemma abandoned_step: "\<not> is_Connect a \<Longrightarrow> step listCodec abandoned a = abandoned"
proof (cases a)
  case (CallConnect addr dial)
  moreover assume "\<not> is_Connect a"
  ultimately show ?thesis by simp
next
  case (CallSend message)
  then show ?thesis by (simp add: abandoned_eq step.simps step_Send_def Send_def)
next
  case CallClose
  then show ?thesis by (simp add: abandoned_eq step.simps step_Close_def Close_def)
next
  case (WriterReceive i)
  then show ?thesis by (simp add: abandoned_eq step.simps step_WriterReceive_def)
next
  case (WriterWrite wres)
  then show ?thesis by (simp add: abandoned_eq step.simps step_WriterWrite_def)
next
  case (ReaderTurn inb)
  then show ?thesis by (simp add: abandoned_eq step.simps step_Reader_def)
next
  case ReaderDelete
  then show ?thesis by (simp add: abandoned_eq step.simps step_ReaderDelete_def)
next
  case (Earlier j b)
  then show ?thesis by (simp add: abandoned_eq step.simps on_earlier_def)
qed

lemma abandoned_run: "no_Connect acts \<Longrightarrow> run listCodec abandoned acts = abandoned"
  unfolding run_def by (induction acts) (simp_all add: abandoned_step)

text \<open>
  C1, at the failing input. A request was written and waits for its reply; the caller
  closes the client and the reader's next read fails, so \<open>readLoop\<close> returns. The call
  of \<open>Send\<close> is still waiting and its entry is still in the table: no error was sent to
  it. As long as nobody calls \<open>Connect\<close> again, no step of the program changes that
  state any more, so the call goes on waiting.
\<close>

theorem pending_Send_hangs:
  "calls pending = [(request1, Waiting)]
   \<and> closing (client abandoned) \<and> reader abandoned = Exited
   \<and> respMap (client abandoned) ''000001'' = Some (replyCh request1)
   \<and> calls abandoned = [(request1, Waiting)]
   \<and> (no_Connect acts \<longrightarrow> run listCodec abandoned acts = abandoned)"
proof -
  have 1: "calls pending = [(request1, Waiting)]" by (simp add: pending_eq)
  have 2: "closing (client abandoned)" "reader abandoned = Exited"
    "respMap (client abandoned) ''000001'' = Some (replyCh request1)"
    "calls abandoned = [(request1, Waiting)]"
    by (simp_all add: abandoned_eq request1_def)
  have 3: "no_Connect acts \<longrightarrow> run listCodec abandoned acts = abandoned"
    using abandoned_run [of acts] by simp
  from 1 2 3 show ?thesis by (intro conjI)
qed

text \<open>
  The theorem at steps of every kind but a \<open>Connect\<close>, a frame with the key of the
  waiting call among them: the call is still waiting.
\<close>

theorem pending_Send_hangs_witness:
  "no_Connect afterwards
   \<and> run listCodec abandoned afterwards = abandoned
   \<and> calls (run listCodec abandoned afterwards) = [(request1, Waiting)]"
proof -
  have h: "no_Connect afterwards" by (simp add: afterwards_def)
  from pending_Send_hangs [of afterwards] h
  have r: "run listCodec abandoned afterwards = abandoned" by blast
  from pending_Send_hangs [of afterwards]
  have "calls abandoned = [(request1, Waiting)]" by blast
  with r h show ?thesis by simp
qed

text \<open>
  C3, at the failing input. The write of the only request fails: the caller gets the
  error and the writer goes on, but the request's entry stays in the table. When a frame
  with that key arrives later, the reader sends it to a channel nobody receives from, and
  is blocked.
\<close>

theorem write_failure_keeps_entry:
  "calls write_failed = [(request1, Returned None (Some (Failure ''broken pipe'')))]
   \<and> writer write_failed = Running
   \<and> respMap (client write_failed) (reqID request1) = Some (replyCh request1)
   \<and> reader (step listCodec write_failed (ReaderTurn (frame ''000001''))) = Blocked"
  by (simp add: write_failed_eq request1_def) (simp add: eval_defs)

text \<open>
  C8, at the failing input. With one request pending under 000001, a frame with the key
  000007 arrives. The reader goes on and the pending call is untouched, but the program is
  exactly as it was before the frame: nothing was logged and nothing was queued.
\<close>

theorem unmatched_is_dropped:
  "respMap (client pending) ''000007'' = None
   \<and> reader pending = Running
   \<and> step listCodec pending (ReaderTurn (frame ''000007'')) = pending"
  by (simp add: pending_eq) (simp add: eval_defs)

text \<open>
  The reader sends a reply and deletes the entry in two steps, without the lock (the TODO
  of line 222). When the same key is registered again between the two, the deletion
  removes the new entry: the reply to the second request finds no entry, and the second
  call goes on waiting.
\<close>

lemma reply_lost_when_key_reused:
  "calls (run listCodec init key_reused) =
     [(request_a, Returned (Some [(11, ''000123'')]) None), (request_b, Waiting)]
   \<and> respMap (client (run listCodec init key_reused)) ''000123'' = None
   \<and> reader (run listCodec init key_reused) = Running"
  by (simp add: key_reused_def eval_defs request_a_def request_b_def)

section \<open>Registering a request\<close>

lemma unsharedI:
  assumes "distinct (map replyCh (requestsCh (client s)))"
    and "\<And>req k. req \<in> set (requestsCh (client s)) \<Longrightarrow> respMap (client s) k \<noteq> Some (replyCh req)"
    and "\<And>k ch. respMap (client s) k = Some ch \<Longrightarrow> \<exists>r \<in> requests s. replyCh r = ch"
  shows "unshared s"
  unfolding unshared_def using assms by (intro conjI) blast+

lemma unsharedD:
  assumes "unshared s"
  shows "distinct (map replyCh (requestsCh (client s)))"
    and "req \<in> set (requestsCh (client s)) \<Longrightarrow> respMap (client s) k \<noteq> Some (replyCh req)"
    and "respMap (client s) k = Some ch \<Longrightarrow> \<exists>r \<in> requests s. replyCh r = ch"
  using assms unfolding unshared_def by blast+

lemma unshared_shrink:
  assumes "unshared s" "requests s1 = requests s"
    "requestsCh (client s1) = requestsCh (client s)"
    "\<And>k ch. respMap (client s1) k = Some ch \<Longrightarrow> respMap (client s) k = Some ch"
  shows "unshared s1"
proof (rule unsharedI)
  note U = unsharedD [OF assms(1)]
  show "distinct (map replyCh (requestsCh (client s1)))" using U(1) by (simp add: assms(3))
  show "respMap (client s1) k \<noteq> Some (replyCh req)" if "req \<in> set (requestsCh (client s1))" for req k
    using that U(2) [of req k] assms(4) [of k "replyCh req"] by (auto simp: assms(3))
  show "\<exists>r \<in> requests s1. replyCh r = ch" if "respMap (client s1) k = Some ch" for k ch
    using U(3) [OF assms(4) [OF that]] by (simp add: assms(2))
qed

lemma distinct_without:
  assumes "distinct xs" "i < length xs"
  shows "distinct (take i xs @ drop (Suc i) xs)" and "xs ! i \<notin> set (take i xs @ drop (Suc i) xs)"
proof -
  have "xs = take i xs @ xs ! i # drop (Suc i) xs" by (rule id_take_nth_drop [OF assms(2)])
  with assms(1) have d: "distinct (take i xs @ xs ! i # drop (Suc i) xs)" by simp
  from d show "distinct (take i xs @ drop (Suc i) xs)" by simp
  from d show "xs ! i \<notin> set (take i xs @ drop (Suc i) xs)" by auto
qed

lemma unshared_Send:
  assumes "consistent cd s" "unshared s"
  shows "unshared (step_Send cd s message)"
proof (cases "snd (snd (Send cd (fresh s) (client s) message))")
  case (Inl e)
  then have st: "step_Send cd s message = s\<lparr>client := fst (Send cd (fresh s) (client s) message)\<rparr>"
    by (simp add: step_Send_def split_def)
  have q: "requestsCh (fst (Send cd (fresh s) (client s) message)) = requestsCh (client s)"
    using Inl by (simp add: Send_queue)
  show ?thesis
    by (rule unshared_shrink [OF assms(2)]) (simp_all add: st q Send_rest requests_def)
next
  case (Inr req)
  let ?s1 = "step_Send cd s message"
  from Inr have st: "?s1 =
      s\<lparr>client := fst (Send cd (fresh s) (client s) message),
        calls := calls s @ [(req, Waiting)], fresh := Suc (Suc (fresh s))\<rparr>"
    by (simp add: step_Send_def split_def)
  have q: "requestsCh (client ?s1) = requestsCh (client s) @ [req]"
    using Inr by (simp add: st Send_queue)
  have m: "respMap (client ?s1) = respMap (client s)" by (simp add: st Send_rest)
  have rq: "requests ?s1 = insert req (requests s)" by (simp add: requests_def st)
  have "Send cd (fresh s) (client s) message =
          (fst (Send cd (fresh s) (client s) message), fst (snd (Send cd (fresh s) (client s) message)), Inr req)"
    using Inr by (simp add: prod_eq_iff)
  from Send_request(4) [OF this] have ch: "replyCh req = fresh s" .
  note D = consistentD [OF assms(1)]
  note U = unsharedD [OF assms(2)]
  have old: "replyCh r < fresh s" if "r \<in> set (requestsCh (client s))" for r
    using that D(3) D(1) [of r] by auto
  show ?thesis
  proof (rule unsharedI)
    have "fresh s \<notin> replyCh ` set (requestsCh (client s))"
    proof
      assume "fresh s \<in> replyCh ` set (requestsCh (client s))"
      then obtain r where "r \<in> set (requestsCh (client s))" "replyCh r = fresh s" by auto
      with old [of r] show False by simp
    qed
    with U(1) ch show "distinct (map replyCh (requestsCh (client ?s1)))" by (simp add: q)
  next
    fix r k assume "r \<in> set (requestsCh (client ?s1))"
    then consider "r \<in> set (requestsCh (client s))" | "r = req" by (auto simp: q)
    then show "respMap (client ?s1) k \<noteq> Some (replyCh r)"
    proof cases
      case 1
      then show ?thesis using U(2) [of r k] by (simp add: m)
    next
      case 2
      show ?thesis
      proof
        assume "respMap (client ?s1) k = Some (replyCh r)"
        then have "respMap (client s) k = Some (fresh s)" using 2 ch by (simp add: m)
        from D(4) [OF this] show False by simp
      qed
    qed
  next
    fix k c assume "respMap (client ?s1) k = Some c"
    then have "respMap (client s) k = Some c" by (simp add: m)
    from U(3) [OF this] show "\<exists>r \<in> requests ?s1. replyCh r = c" by (auto simp: rq)
  qed
qed

lemma unshared_WriterReceive:
  assumes "consistent cd s" "unshared s"
  shows "unshared (step_WriterReceive s i)"
proof (cases "writer s = Running \<and> writer_req s = None \<and> i < length (requestsCh (client s))")
  case False
  with assms(2) show ?thesis by (auto simp: step_WriterReceive_def)
next
  case True
  let ?q = "requestsCh (client s)"
  let ?s1 = "step_WriterReceive s i"
  from True have g: "writer s = Running" "writer_req s = None" "i < length ?q" by simp_all
  note F = step_WriterReceive_shared [OF g]
  note D = consistentD [OF assms(1)]
  note U = unsharedD [OF assms(2)]
  have rq: "requests ?s1 = requests s" by (simp add: requests_def F(1))
  have mp: "map replyCh (take i ?q @ drop (Suc i) ?q) =
              take i (map replyCh ?q) @ drop (Suc i) (map replyCh ?q)"
    by (simp add: take_map drop_map)
  have li: "i < length (map replyCh ?q)" using g(3) by simp
  note W = distinct_without [OF U(1) li]
  have im: "set (take i (map replyCh ?q) @ drop (Suc i) (map replyCh ?q)) =
          replyCh ` set (take i ?q @ drop (Suc i) ?q)"
    by (simp only: mp [symmetric] set_map)
  have ni: "replyCh (?q ! i) \<notin> replyCh ` set (take i ?q @ drop (Suc i) ?q)"
  proof
    assume "replyCh (?q ! i) \<in> replyCh ` set (take i ?q @ drop (Suc i) ?q)"
    then have "replyCh (?q ! i) \<in> set (take i (map replyCh ?q) @ drop (Suc i) (map replyCh ?q))"
      by (simp only: im)
    moreover have "map replyCh ?q ! i = replyCh (?q ! i)" using g(3) by simp
    ultimately show False using W(2) by simp
  qed
  have "?q ! i \<in> set ?q" using g(3) by simp
  with D(3) have mem: "?q ! i \<in> requests s" by auto
  show ?thesis
  proof (rule unsharedI)
    show "distinct (map replyCh (requestsCh (client ?s1)))" using W(1) by (simp only: F(3) mp)
  next
    fix r k assume r: "r \<in> set (requestsCh (client ?s1))"
    then have r1: "r \<in> set (take i ?q @ drop (Suc i) ?q)" by (simp only: F(3))
    then have r0: "r \<in> set ?q" using set_without [of i ?q] by auto
    have ne: "replyCh (?q ! i) \<noteq> replyCh r"
    proof
      assume eq: "replyCh (?q ! i) = replyCh r"
      from r1 have "replyCh r \<in> replyCh ` set (take i ?q @ drop (Suc i) ?q)" by (rule imageI)
      with ni eq show False by simp
    qed
    show "respMap (client ?s1) k \<noteq> Some (replyCh r)"
      using U(2) [OF r0, of k] ne by (simp add: F(4))
  next
    fix k c assume a: "respMap (client ?s1) k = Some c"
    show "\<exists>r \<in> requests ?s1. replyCh r = c"
    proof (cases "k = reqID (?q ! i)")
      case True
      with a have "c = replyCh (?q ! i)" by (simp add: F(4))
      with mem show ?thesis unfolding rq by blast
    next
      case False
      with a have "respMap (client s) k = Some c" by (simp add: F(4))
      from U(3) [OF this] show ?thesis unfolding rq .
    qed
  qed
qed

lemma unshared_WriterWrite:
  assumes "unshared s"
  shows "unshared (step_WriterWrite s wres)"
proof (cases "writer s = Running")
  case False
  with assms show ?thesis by (simp add: step_WriterWrite_def)
next
  case True
  show ?thesis
  proof (cases "writer_req s")
    case None
    with True assms show ?thesis by (simp add: step_WriterWrite_def)
  next
    case (Some req)
    obtain s1 fl where w: "writeLoop_write s req wres = (s1, fl)"
      by (cases "writeLoop_write s req wres")
    note F = writeLoop_write_shared [OF w]
    have u1: "unshared s1"
      by (rule unshared_shrink [OF assms requests_map [OF F(4)] F(2)]) (simp add: F(1))
    have fl: "unshared (s1\<lparr>writer_req := None\<rparr>)" "unshared (s1\<lparr>writer := Blocked\<rparr>)"
      "unshared (s1\<lparr>writer := Exited\<rparr>)" "unshared (s1\<lparr>crashed := True\<rparr>)"
      by (rule unshared_shrink [OF u1]; simp add: requests_def)+
    from True Some w fl show ?thesis
      by (cases fl) (simp_all add: step_WriterWrite_def)
  qed
qed

lemma unshared_Reader:
  assumes "unshared s"
  shows "unshared (step_Reader cd s inb)"
proof (rule unshared_shrink [OF assms])
  obtain s1 v1 fl k where d: "readLoop_deliver cd s (reader_vars s) inb = (s1, v1, fl, k)"
    by (cases "readLoop_deliver cd s (reader_vars s) inb")
  from readLoop_deliver_cases [OF d]
  have s1: "map fst (calls s1) = map fst (calls s) \<and> client s1 = client s"
    by (auto dest: send_reply_requests)
  have r: "map fst (calls (step_Reader cd s inb)) = map fst (calls s)
         \<and> client (step_Reader cd s inb) = client s"
    using d s1 by (cases fl) (auto simp: step_Reader_def readLoop_exit_def split: option.splits)
  from r show "requests (step_Reader cd s inb) = requests s" by (intro requests_map) simp
  from r show "requestsCh (client (step_Reader cd s inb)) = requestsCh (client s)" by simp
  from r show "respMap (client s) k = Some ch"
    if "respMap (client (step_Reader cd s inb)) k = Some ch" for k ch
    using that by simp
qed

lemma unshared_ReaderDelete:
  assumes "unshared s"
  shows "unshared (step_ReaderDelete s)"
  by (rule unshared_shrink [OF assms])
     (auto simp: step_ReaderDelete_def readLoop_delete_def requests_def split: option.splits if_splits)

lemma unshared_turn: "consistent cd s \<Longrightarrow> unshared s \<Longrightarrow> unshared (turn cd s a)"
  by (cases a)
     (simp_all add: unshared_WriterReceive unshared_WriterWrite unshared_Reader unshared_ReaderDelete)

lemma unshared_load: "unshared (load l s) = unshared s"
  by (simp add: unshared_def requests_def load_def)

lemma unshared_on_earlier:
  assumes "consistent cd s" "unshared s"
  shows "unshared (on_earlier j (\<lambda>s1. turn cd s1 b) s)"
proof (cases "j < length (earlier s)")
  case False
  with assms show ?thesis by (simp add: on_earlier_def)
next
  case True
  let ?s1 = "turn cd (load (earlier s ! j) s) b"
  have "unshared ?s1"
    using assms by (intro unshared_turn) (simp_all add: consistent_flag unshared_load)
  moreover have "on_earlier j (\<lambda>s1. turn cd s1 b) s =
      load (save s) (?s1\<lparr>earlier := (earlier s)[j := save ?s1]\<rparr>)"
    using True by (simp add: on_earlier_def Let_def)
  moreover have "unshared (?s1\<lparr>earlier := (earlier s)[j := save ?s1]\<rparr>) = unshared ?s1"
    by (simp add: unshared_def requests_def)
  ultimately show ?thesis by (simp add: unshared_load)
qed

lemma unshared_step:
  assumes "consistent cd s" "unshared s"
  shows "unshared (step cd s a)"
proof (cases "crashed s")
  case True
  with assms show ?thesis by (simp add: step.simps)
next
  case False
  have c: "unshared (step_Connect s addr dial)" for addr dial
    by (rule unshared_shrink [OF assms(2)])
       (simp_all add: step_Connect_def Connect_def requests_def split: sum.splits)
  have cl: "unshared (step_Close s)"
    by (rule unshared_shrink [OF assms(2)])
       (simp_all add: step_Close_def Close_def Let_def requests_def split: option.splits if_splits)
  from False c cl unshared_Send [OF assms] unshared_on_earlier [OF assms]
    unshared_WriterReceive [OF assms] unshared_WriterWrite [OF assms(2)]
    unshared_Reader [OF assms(2)] unshared_ReaderDelete [OF assms(2)]
  show ?thesis by (cases a) (simp_all add: step.simps)
qed

lemma unshared_run: "consistent cd s \<Longrightarrow> unshared s \<Longrightarrow> unshared (run cd s acts)"
  unfolding run_def
  by (induction acts arbitrary: s) (simp_all add: consistent_step unshared_step)

lemma unshared_init: "unshared init"
  by (simp add: unshared_def requests_def init_def NewClient_def)

text \<open>
  C4 as stated fails. The table holds the first request's reply channel under 000123 and
  that request's call is waiting; the writer receives a second request with the same key,
  and the table then holds the second request's channel under 000123.
\<close>

theorem second_request_overwrites:
  "respMap (client before_collision) (reqID request_b) = Some (replyCh request_a)
   \<and> (request_a, Waiting) \<in> set (calls before_collision)
   \<and> requestsCh (client before_collision) = [request_b]
   \<and> respMap (client (step listCodec before_collision (WriterReceive 0))) (reqID request_b)
       = Some (replyCh request_b)
   \<and> replyCh request_b \<noteq> replyCh request_a
   \<and> (request_a, Waiting) \<in> set (calls (step listCodec before_collision (WriterReceive 0)))"
  by (simp add: before_collision_eq) (simp add: eval_defs request_a_def request_b_def)

text \<open>
  C4 as amended. In every run of the program from its start, the channel the table holds
  under a key is the reply channel of exactly one request, a request with that key. When
  a writer receives a request and registers it (lines 170 to 172), the table holds that
  request's reply channel under the request's key, and the entries under all other keys
  are as they were. If the key was present, the pending entry that was there is
  overwritten: the channel it held is another request's, and after the registration the
  table holds that channel under no key.
\<close>

theorem register_overwrites:
  assumes "writer l = Running" "writer_req l = None"
    and "i < length (requestsCh (client (run cd init acts)))"
  shows "(\<forall>k ch. respMap (client (run cd init acts)) k = Some ch \<longrightarrow>
             (\<exists>r. r \<in> requests (run cd init acts) \<and> replyCh r = ch \<and> reqID r = k
                \<and> (\<forall>r'. r' \<in> requests (run cd init acts) \<and> replyCh r' = ch \<longrightarrow> r' = r)))
       \<and> respMap (client (step_WriterReceive (load l (run cd init acts)) i))
             (reqID (requestsCh (client (run cd init acts)) ! i))
           = Some (replyCh (requestsCh (client (run cd init acts)) ! i))
       \<and> (\<forall>k. k \<noteq> reqID (requestsCh (client (run cd init acts)) ! i) \<longrightarrow>
             respMap (client (step_WriterReceive (load l (run cd init acts)) i)) k
               = respMap (client (run cd init acts)) k)
       \<and> (\<forall>ch. respMap (client (run cd init acts)) (reqID (requestsCh (client (run cd init acts)) ! i))
                  = Some ch \<longrightarrow>
             ch \<noteq> replyCh (requestsCh (client (run cd init acts)) ! i)
             \<and> (\<forall>k. respMap (client (step_WriterReceive (load l (run cd init acts)) i)) k \<noteq> Some ch))"
proof -
  let ?s = "run cd init acts"
  let ?q = "requestsCh (client ?s)"
  let ?req = "?q ! i"
  let ?s1 = "step_WriterReceive (load l ?s) i"
  have c: "consistent cd ?s" by (rule consistent_run [OF consistent_init])
  have u: "unshared ?s" by (rule unshared_run [OF consistent_init unshared_init])
  note D = consistentD [OF c]
  note U = unsharedD [OF u]
  have g: "writer (load l ?s) = Running" "writer_req (load l ?s) = None"
    "i < length (requestsCh (client (load l ?s)))"
    using assms by (simp_all add: load_def)
  have m: "respMap (client ?s1) = (respMap (client ?s))(reqID ?req \<mapsto> replyCh ?req)"
    using step_WriterReceive_shared(4) [OF g] by (simp add: load_def)
  have mem: "?req \<in> set ?q" using assms(3) by simp
  have 0: "\<forall>k ch. respMap (client ?s) k = Some ch \<longrightarrow>
             (\<exists>r. r \<in> requests ?s \<and> replyCh r = ch \<and> reqID r = k
                \<and> (\<forall>r'. r' \<in> requests ?s \<and> replyCh r' = ch \<longrightarrow> r' = r))"
  proof (intro allI impI)
    fix k ch assume a: "respMap (client ?s) k = Some ch"
    from U(3) [OF a] obtain r where r: "r \<in> requests ?s" "replyCh r = ch" by auto
    have key: "reqID r = k" by (rule D(5) [OF a r])
    from r(1) obtain st where st: "(r, st) \<in> set (calls ?s)" by (auto simp: requests_def)
    have "r' = r" if "r' \<in> requests ?s \<and> replyCh r' = ch" for r'
    proof -
      from that obtain st' where "(r', st') \<in> set (calls ?s)" by (auto simp: requests_def)
      from distinct_waiting [OF D(2) this st] that r(2) show ?thesis by simp
    qed
    with r key show "\<exists>r. r \<in> requests ?s \<and> replyCh r = ch \<and> reqID r = k
                \<and> (\<forall>r'. r' \<in> requests ?s \<and> replyCh r' = ch \<longrightarrow> r' = r)"
      by blast
  qed
  have 1: "respMap (client ?s1) (reqID ?req) = Some (replyCh ?req)" by (simp add: m)
  have 2: "\<forall>k. k \<noteq> reqID ?req \<longrightarrow> respMap (client ?s1) k = respMap (client ?s) k"
    by (simp add: m)
  have 3: "\<forall>ch. respMap (client ?s) (reqID ?req) = Some ch \<longrightarrow>
             ch \<noteq> replyCh ?req \<and> (\<forall>k. respMap (client ?s1) k \<noteq> Some ch)"
  proof (intro allI impI conjI)
    fix ch assume old: "respMap (client ?s) (reqID ?req) = Some ch"
    from U(2) [OF mem, of "reqID ?req"] old show ne: "ch \<noteq> replyCh ?req" by auto
    fix k
    show "respMap (client ?s1) k \<noteq> Some ch"
    proof (cases "k = reqID ?req")
      case True
      with ne show ?thesis by (simp add: m)
    next
      case False
      show ?thesis
      proof
        assume "respMap (client ?s1) k = Some ch"
        with False have k: "respMap (client ?s) k = Some ch" by (simp add: m)
        from U(3) [OF old] obtain r where r: "r \<in> requests ?s" "replyCh r = ch" by auto
        from D(5) [OF old r] D(5) [OF k r] False show False by simp
      qed
    qed
  qed
  from 0 1 2 3 show ?thesis by (intro conjI)
qed

text \<open>
  The theorem at the second of two requests with the key 000123: its channel 2 takes the
  place of the first request's channel 0, which the table then holds under no key.
\<close>

theorem register_overwrites_witness:
  "writer (save before_collision) = Running \<and> writer_req (save before_collision) = None
   \<and> 0 < length (requestsCh (client (run listCodec init collision)))
   \<and> requestsCh (client (run listCodec init collision)) ! 0 = request_b
   \<and> respMap (client (run listCodec init collision)) (reqID request_b) = Some 0
   \<and> respMap (client (step_WriterReceive (load (save before_collision) (run listCodec init collision)) 0))
       (reqID request_b) = Some 2
   \<and> (\<forall>k. respMap (client (step_WriterReceive (load (save before_collision) (run listCodec init collision)) 0)) k
           \<noteq> Some 0)"
proof -
  let ?s = "run listCodec init collision"
  have e: "?s = before_collision" by (simp add: before_collision_def)
  have h: "writer (save before_collision) = Running" "writer_req (save before_collision) = None"
    "0 < length (requestsCh (client ?s))"
    by (simp_all add: e) (simp_all add: before_collision_eq save_def)
  have q: "requestsCh (client ?s) ! 0 = request_b" by (simp add: e) (simp add: before_collision_eq)
  have o: "respMap (client ?s) (reqID request_b) = Some 0"
    by (simp add: e) (simp add: before_collision_eq request_b_def)
  note t = register_overwrites [OF h, unfolded q]
  from t have 1: "respMap (client (step_WriterReceive (load (save before_collision) ?s) 0))
       (reqID request_b) = Some 2"
    by (elim conjE) (simp add: request_b_def)
  from t o have 2: "\<forall>k. respMap (client (step_WriterReceive (load (save before_collision) ?s) 0)) k
           \<noteq> Some 0"
    by blast
  from h q o 1 2 show ?thesis by (intro conjI)
qed

end
